theory Spec2Isabelle
  imports Complex_Main
begin

section \<open>Data model of \<open>R2PD/nearestnodes.py\<close>\<close>

text \<open>
  The module has two functions, \<open>nearest_power_nodes\<close> and \<open>nearest_met_nodes\<close>. Both
  work on pandas tables and on a k-d tree of scipy. The embedding keeps what the two
  functions do with them:
  \<^item> pandas and scipy are those the code was written for (\<open>as_matrix\<close> and
    \<open>iteritems\<close> exist);
  \<^item> a Python float is an IEEE 754 double: a real number, and every operation of the
    code that rounds gives \<open>fl\<close> of the exact result, the double nearest to it (ties to
    even). The tables hold finite floats (no NaN, no infinity). In a run the remainders
    the code computes lie between 0 and the demand or the capacity they start from, and
    the fractions between 0 and 1, so no operation overflows;
  \<^item> a \<open>DataFrame\<close> of floats is a \<open>frame\<close>: the column labels and the rows, each row
    with its index label;
  \<^item> every exception the code can run into is a value of \<open>error\<close>;
  \<^item> the \<open>while True\<close> loop of \<open>nearest_power_nodes\<close> is a recursion on a number of
    passes it may still run (\<open>None\<close>: that many passes were not enough).
\<close>

datatype 'n error =
    KeyError | IndexError | ValueError | AttributeError | TypeError
  | EmptyIndexError | CapacityExhaustedError "('n \<times> real) list"
  \<comment> \<open>The first five are the exceptions the Python raises. The last two are the error
      kinds the specification names; no definition below produces them.\<close>

subsection \<open>Floats\<close>

definition round_even :: "real \<Rightarrow> int" where
  \<comment> \<open>The integer nearest to \<open>x\<close>, the even one of two at the same distance.\<close>
  "round_even x =
     (let n = \<lfloor>x\<rfloor>; d = x - of_int n in
      if d < 1 / 2 then n else if 1 / 2 < d then n + 1 else if even n then n else n + 1)"

definition ulp :: "nat \<Rightarrow> real" where
  \<comment> \<open>The distances between neighbouring doubles: \<open>2\<^sup>-\<^sup>1\<^sup>0\<^sup>7\<^sup>4\<close>, the least positive double,
      times a power of 2.\<close>
  "ulp i = 2 ^ i / 2 ^ 1074"

fun scale_up :: "nat \<Rightarrow> real \<Rightarrow> nat \<times> real" where
  \<comment> \<open>\<open>scale_up i m\<close>, for \<open>m * ulp i\<close> not negative: the same number as \<open>n * ulp j\<close> with
      \<open>n\<close> at least \<open>2\<^sup>5\<^sup>2\<close>, or with \<open>j = 0\<close> (a subnormal number).\<close>
  "scale_up 0 m = (0, m)"
| "scale_up (Suc i) m = (if m < 2 ^ 52 then scale_up i (2 * m) else (Suc i, m))"

fun scale_down :: "nat \<Rightarrow> nat \<Rightarrow> real \<Rightarrow> nat \<times> real" where
  \<comment> \<open>\<open>scale_down k i m\<close>: the same number as \<open>n * ulp j\<close> with \<open>n\<close> less than \<open>2\<^sup>5\<^sup>3\<close>, in at
      most \<open>k\<close> steps.\<close>
  "scale_down 0 i m = (i, m)"
| "scale_down (Suc k) i m = (if 2 ^ 53 \<le> m then scale_down k (Suc i) (m / 2) else (i, m))"

definition normalise :: "real \<Rightarrow> nat \<times> real" where
  \<comment> \<open>\<open>a\<close>, not negative, as \<open>m * ulp i\<close> with \<open>2\<^sup>5\<^sup>2 \<le> m < 2\<^sup>5\<^sup>3\<close>, or with \<open>i = 0\<close> and \<open>m < 2\<^sup>5\<^sup>2\<close>:
      \<open>ulp i\<close> is the distance of the doubles around \<open>a\<close>. The greatest such distance is
      \<open>ulp 2045 = 2\<^sup>9\<^sup>7\<^sup>1\<close>.\<close>
  "normalise a = (if a < 2 ^ 52 then scale_up 1074 a else scale_down 971 1074 a)"

definition fl :: "real \<Rightarrow> real" where
  \<comment> \<open>The double nearest to \<open>x\<close>, of two at the same distance the one with the even
      significand (binary64, round to nearest, ties to even; gradual underflow). The
      Python literal \<open>0.8\<close> is \<open>fl (4 / 5)\<close>. Beyond the greatest double, where IEEE
      arithmetic gives infinity, \<open>fl\<close> goes on in steps of \<open>2\<^sup>9\<^sup>7\<^sup>1\<close>; the code does not get
      there from finite tables.\<close>
  "fl x = (case normalise \<bar>x\<bar> of (i, m) \<Rightarrow> sgn x * (of_int (round_even m) * ulp i))"

subsection \<open>Tables\<close>

record 'i frame =
  columns :: "string list"
  rows :: "('i \<times> real list) list"

definition wf_frame :: "'i frame \<Rightarrow> bool" where
  \<comment> \<open>What pandas guarantees of a table, and what the module's docstrings ask of it: the
      table is rectangular, its column labels differ and its index is unique.\<close>
  "wf_frame df \<longleftrightarrow>
     list_all (\<lambda>row. length (snd row) = length (columns df)) (rows df) \<and>
     distinct (columns df) \<and> distinct (map fst (rows df))"

fun column_pos :: "string list \<Rightarrow> string \<Rightarrow> nat" where
  "column_pos [] c = 0"
| "column_pos (x # xs) c = (if x = c then 0 else Suc (column_pos xs c))"

definition getitem :: "'i frame \<Rightarrow> string \<Rightarrow> 'n error + real list" where
  \<comment> \<open>\<open>df[c]\<close>: the column labelled \<open>c\<close>, \<open>KeyError\<close> when there is none.\<close>
  "getitem df c =
     (if c \<in> set (columns df)
      then Inr (map (\<lambda>row. snd row ! column_pos (columns df) c) (rows df))
      else Inl KeyError)"

datatype 'i node_collection = NodeCollection "'i frame" | DataFrame "'i frame"
  \<comment> \<open>The first argument is a \<open>NodeCollection\<close> (class of \<open>R2PD.powerdata\<close>, of which the
      functions read the table \<open>node_data\<close> only) or the table itself.\<close>

fun node_data_of :: "'i node_collection \<Rightarrow> 'i frame" where
  "node_data_of (NodeCollection nd) = nd"
| "node_data_of (DataFrame df) = df"

subsection \<open>The k-d tree\<close>

type_synonym point = "real \<times> real"

datatype dist = Dist real | Inf_dist

fun dist_less :: "dist \<Rightarrow> dist \<Rightarrow> bool" where
  "dist_less (Dist a) (Dist b) = (a < b)"
| "dist_less (Dist a) Inf_dist = True"
| "dist_less Inf_dist d = False"

type_synonym query = "point list \<Rightarrow> point \<Rightarrow> dist \<times> nat"
  \<comment> \<open>\<open>cKDTree(pts).query(p, k=1)\<close>: the distance to the nearest point of \<open>pts\<close> and its
      position in \<open>pts\<close>.\<close>

definition euclid :: "point \<Rightarrow> point \<Rightarrow> real" where
  "euclid p q = sqrt ((fst p - fst q)\<^sup>2 + (snd p - snd q)\<^sup>2)"

definition kdtree_query :: "query \<Rightarrow> bool" where
  \<comment> \<open>What scipy documents of \<open>query\<close> with \<open>k=1\<close>: the position returned is one of a
      nearest point, with its Euclidean distance; on a tree of \<open>n = 0\<close> points the
      neighbour is missing, which is the infinite distance and the position \<open>n\<close>. Which of
      several nearest points is returned is left open.\<close>
  "kdtree_query query \<longleftrightarrow>
     (\<forall>p. query [] p = (Inf_dist, 0)) \<and>
     (\<forall>pts p. pts \<noteq> [] \<longrightarrow>
        (\<exists>i<length pts. query pts p = (Dist (euclid p (pts ! i)), i) \<and>
           (\<forall>j<length pts. euclid p (pts ! i) \<le> euclid p (pts ! j))))"

fun first_min :: "real \<Rightarrow> nat \<Rightarrow> nat \<Rightarrow> real list \<Rightarrow> real \<times> nat" where
  \<comment> \<open>\<open>first_min best b k ds\<close>: the least of \<open>best # ds\<close> and the first position it is
      at, \<open>best\<close> being at \<open>b\<close> and \<open>ds\<close> starting at \<open>k\<close>.\<close>
  "first_min best b k [] = (best, b)"
| "first_min best b k (d # ds) =
     (if d < best then first_min d k (Suc k) ds else first_min best b (Suc k) ds)"

definition first_nearest :: query where
  \<comment> \<open>One \<open>query\<close>: linear search, the first of several nearest points.\<close>
  "first_nearest pts p =
     (case map (euclid p) pts of
        [] \<Rightarrow> (Inf_dist, 0)
      | d # ds \<Rightarrow> (case first_min d 0 1 ds of (m, i) \<Rightarrow> (Dist m, i)))"

subsection \<open>\<open>groupby('pos')['dist'].idxmin()\<close>\<close>

fun idxmin_from :: "nat \<times> dist \<Rightarrow> (nat \<times> dist) list \<Rightarrow> nat" where
  "idxmin_from best [] = fst best"
| "idxmin_from best (x # xs) =
     idxmin_from (if dist_less (snd x) (snd best) then x else best) xs"

fun idxmin :: "(nat \<times> dist) list \<Rightarrow> nat" where
  \<comment> \<open>The index label of the first least value of a series; pandas raises on an empty
      series, and \<open>groupby\<close> makes no empty group.\<close>
  "idxmin [] = 0"
| "idxmin (x # xs) = idxmin_from x xs"

definition pos_group :: "(dist \<times> nat) list \<Rightarrow> nat \<Rightarrow> (nat \<times> dist) list" where
  "pos_group dist_pos p = [(n, fst dp). (n, dp) \<leftarrow> enumerate 0 dist_pos, snd dp = p]"

definition groupby_idxmin :: "(dist \<times> nat) list \<Rightarrow> (nat \<times> nat) list" where
  \<comment> \<open>One entry \<open>(pos, n)\<close> for each value of \<open>pos\<close>, in ascending order of \<open>pos\<close>: \<open>n\<close> is the
      row of the least \<open>dist\<close> among the rows with that \<open>pos\<close>.\<close>
  "groupby_idxmin dist_pos =
     map (\<lambda>p. (p, idxmin (pos_group dist_pos p))) (sort (remdups (map snd dist_pos)))"

subsection \<open>The working tables of \<open>nearest_power_nodes\<close>\<close>

record 's site_row =
  latitude :: real
  longitude :: real
  capacity :: real
  site_id :: "'s list option"
  site_fracs :: "real list option"

record 's node_row = "'s site_row" +
  r_cap :: real

record resource_row =
  res_longitude :: real
  res_latitude :: real
  res_capacity :: real
  res_r_cap :: real

type_synonym ('n, 's) nodes = "('n \<times> 's node_row) list"
type_synonym 's r_nodes = "('s \<times> resource_row) list"

definition loc :: "('k \<times> 'v) list \<Rightarrow> 'k \<Rightarrow> 'v list" where
  \<comment> \<open>\<open>table.loc[label]\<close>: the rows with that index label.\<close>
  "loc table l = map snd (filter (\<lambda>kv. fst kv = l) table)"

definition set_loc :: "('k \<times> 'v) list \<Rightarrow> 'k \<Rightarrow> 'v \<Rightarrow> ('k \<times> 'v) list" where
  \<comment> \<open>\<open>table.loc[label] = row\<close>.\<close>
  "set_loc table l v = map (\<lambda>kv. if fst kv = l then (fst kv, v) else kv) table"

definition apportion :: "resource_row \<Rightarrow> 's node_row \<Rightarrow> real \<times> resource_row \<times> 's node_row" where
  \<comment> \<open>Lines 82 to 93: the fraction of the resource applied to the node, and both rows
      after it. The quotient and the sum are rounded; the product by \<open>-1\<close> is the float of
      the opposite sign, which no rounding changes. The divisor is the capacity of a
      resource with capacity left; in a run it is positive.\<close>
  "apportion resource node =
     (let cap = res_r_cap resource in
      if r_cap node > cap
      then (fl (cap / res_capacity resource),
            resource\<lparr>res_r_cap := 0\<rparr>,
            node\<lparr>r_cap := fl (r_cap node + - 1 * cap)\<rparr>)
      else (fl (r_cap node / res_capacity resource),
            resource\<lparr>res_r_cap := fl (res_r_cap resource + - 1 * r_cap node)\<rparr>,
            node\<lparr>r_cap := 0\<rparr>))"

definition isnull :: "'s list option \<Rightarrow> bool" where
  \<comment> \<open>\<open>np.all(pds.isnull(v))\<close>: \<open>v\<close> is the missing value, or a list with no element that
      is not missing (index labels are never missing here).\<close>
  "isnull v = (case v of None \<Rightarrow> True | Some ids \<Rightarrow> ids = [])"

definition add_site :: "'s \<Rightarrow> real \<Rightarrow> 's node_row \<Rightarrow> 'n error + 's node_row" where
  \<comment> \<open>Lines 95 to 100. Adding a list to a missing value is a \<open>TypeError\<close>.\<close>
  "add_site file_id fraction node =
     (if isnull (site_id node)
      then Inr (node\<lparr>site_id := Some [file_id], site_fracs := Some [fraction]\<rparr>)
      else (case (site_id node, site_fracs node) of
              (Some ids, Some fracs) \<Rightarrow>
                Inr (node\<lparr>site_id := Some (ids @ [file_id]), site_fracs := Some (fracs @ [fraction])\<rparr>)
            | _ \<Rightarrow> Inl TypeError))"

definition assign ::
  "'s list \<Rightarrow> 'n list \<Rightarrow> ('n, 's) nodes \<times> 's r_nodes \<Rightarrow> nat \<times> nat \<Rightarrow>
     'n error + (('n, 's) nodes \<times> 's r_nodes)" where
  \<comment> \<open>The body of the \<open>for\<close> loop, lines 78 to 103. An index out of range is an
      \<open>IndexError\<close>. \<open>loc\<close> of a label that several rows have is a table, not a row:
      \<open>resource.name\<close> is then an \<open>AttributeError\<close>, and the test \<open>node['r_cap'] > cap\<close> a
      \<open>ValueError\<close>.\<close>
  "assign r_index n_index st pair =
     (case st of (nodes, r_nodes) \<Rightarrow>
      case pair of (i, n) \<Rightarrow>
      if length r_index \<le> i then Inl IndexError
      else if length n_index \<le> n then Inl IndexError
      else
        let r_i = r_index ! i; n_i = n_index ! n in
        case loc r_nodes r_i of
          [] \<Rightarrow> Inl KeyError
        | [resource] \<Rightarrow>
            (case loc nodes n_i of
               [] \<Rightarrow> Inl KeyError
             | [node] \<Rightarrow>
                 (case apportion resource node of (fraction, resource', node') \<Rightarrow>
                  case add_site r_i fraction node' of
                    Inl e \<Rightarrow> Inl e
                  | Inr node'' \<Rightarrow> Inr (set_loc nodes n_i node'', set_loc r_nodes r_i resource'))
             | _ \<Rightarrow> Inl ValueError)
        | _ \<Rightarrow> Inl AttributeError)"

fun for_each :: "('a \<Rightarrow> 'b \<Rightarrow> 'e + 'a) \<Rightarrow> 'b list \<Rightarrow> 'a \<Rightarrow> 'e + 'a" where
  "for_each f [] st = Inr st"
| "for_each f (x # xs) st = (case f st x of Inl e \<Rightarrow> Inl e | Inr st' \<Rightarrow> for_each f xs st')"

definition r_left_of :: "'s r_nodes \<Rightarrow> 's r_nodes" where
  "r_left_of r_nodes = filter (\<lambda>r. res_r_cap (snd r) > 0) r_nodes"

definition nodes_left_of :: "('n, 's) nodes \<Rightarrow> ('n, 's) nodes" where
  "nodes_left_of nodes = filter (\<lambda>n. r_cap (snd n) > 0) nodes"

definition query_all :: "query \<Rightarrow> ('n, 's) nodes \<times> 's r_nodes \<Rightarrow> (dist \<times> nat) list" where
  \<comment> \<open>Lines 50 to 71: \<open>dist\<close> and \<open>pos\<close> of every node left, in the tree of the resources
      left.\<close>
  "query_all query st =
     (let lat_lon = map (\<lambda>r. (res_latitude (snd r), res_longitude (snd r))) (r_left_of (snd st));
          node_lat_lon = map (\<lambda>n. (latitude (snd n), longitude (snd n))) (nodes_left_of (fst st))
      in map (query lat_lon) node_lat_lon)"

definition power_pass ::
  "query \<Rightarrow> ('n, 's) nodes \<times> 's r_nodes \<Rightarrow> 'n error + (('n, 's) nodes \<times> 's r_nodes)" where
  \<comment> \<open>One pass of the \<open>while\<close> loop, lines 49 to 103.\<close>
  "power_pass query st =
     (let r_index = map fst (r_left_of (snd st));
          n_index = map fst (nodes_left_of (fst st));
          node_pairs = groupby_idxmin (query_all query st)
      in for_each (assign r_index n_index) node_pairs st)"

definition pass_prefix ::
  "nat \<Rightarrow> query \<Rightarrow> ('n, 's) nodes \<times> 's r_nodes \<Rightarrow> 'n error + (('n, 's) nodes \<times> 's r_nodes)" where
  \<comment> \<open>A pass left after the first \<open>j\<close> rounds of its \<open>for\<close> loop.\<close>
  "pass_prefix j query st =
     (let r_index = map fst (r_left_of (snd st));
          n_index = map fst (nodes_left_of (fst st));
          node_pairs = groupby_idxmin (query_all query st)
      in for_each (assign r_index n_index) (take j node_pairs) st)"

fun power_loop ::
  "nat \<Rightarrow> query \<Rightarrow> ('n, 's) nodes \<times> 's r_nodes \<Rightarrow>
     ('n error + (('n, 's) nodes \<times> 's r_nodes)) option" where
  \<comment> \<open>The \<open>while True\<close> loop, cut off after the given number of passes.\<close>
  "power_loop 0 query st = None"
| "power_loop (Suc k) query st =
     (case power_pass query st of
        Inl e \<Rightarrow> Some (Inl e)
      | Inr st' \<Rightarrow>
          if length (nodes_left_of (fst st')) = 0 then Some (Inr st')
          else power_loop k query st')"

definition broadcast :: "nat \<Rightarrow> real list \<Rightarrow> real list" where
  \<comment> \<open>A row of \<open>node_data.values\<close> as it is assigned to \<open>k\<close> columns: a row of one value
      fills them all.\<close>
  "broadcast k row = (if length row = 1 then replicate k (row ! 0) else row)"

definition init_nodes :: "'n frame \<Rightarrow> real list \<Rightarrow> ('n, 's) nodes" where
  \<comment> \<open>Lines 37 to 42: the three columns of \<open>node_data\<close> by position, \<open>site_id\<close> and
      \<open>site_fracs\<close> missing, and \<open>r_cap\<close>.\<close>
  "init_nodes node_data demand =
     map2 (\<lambda>row d. (fst row,
             \<lparr>latitude = broadcast 3 (snd row) ! 0, longitude = broadcast 3 (snd row) ! 1,
              capacity = broadcast 3 (snd row) ! 2,
              site_id = None, site_fracs = None, r_cap = d\<rparr>))
       (rows node_data) demand"

definition init_r_nodes :: "'s list \<Rightarrow> real list \<Rightarrow> real list \<Rightarrow> real list \<Rightarrow> 's r_nodes" where
  \<comment> \<open>Lines 44 to 46.\<close>
  "init_r_nodes labels lon lat cap =
     map2 (\<lambda>l (x, y, c). (l, \<lparr>res_longitude = x, res_latitude = y, res_capacity = c, res_r_cap = c\<rparr>))
       labels (zip lon (zip lat cap))"

definition power_tables ::
  "'n frame \<Rightarrow> 's frame \<Rightarrow> 'n error + (('n, 's) nodes \<times> 's r_nodes)" where
  \<comment> \<open>Lines 37 to 46: the two working tables. Line 41 assigns a table of three columns
      to the three columns column by column, and a table of one column to each of them;
      a table of another number of columns is a \<open>ValueError\<close>.\<close>
  "power_tables node_data resource_meta =
     (if length (columns node_data) \<noteq> 3 \<and> length (columns node_data) \<noteq> 1 then Inl ValueError
      else
        case getitem node_data ''capacity (MW)'' of
          Inl e \<Rightarrow> Inl e
        | Inr demand \<Rightarrow>
        case getitem resource_meta ''longitude'' of
          Inl e \<Rightarrow> Inl e
        | Inr lon \<Rightarrow>
        case getitem resource_meta ''latitude'' of
          Inl e \<Rightarrow> Inl e
        | Inr lat \<Rightarrow>
        case getitem resource_meta ''capacity'' of
          Inl e \<Rightarrow> Inl e
        | Inr cap \<Rightarrow>
            Inr (init_nodes node_data demand,
                 init_r_nodes (map fst (rows resource_meta)) lon lat cap))"

definition nearest_power_nodes ::
  "nat \<Rightarrow> query \<Rightarrow> 'n node_collection \<Rightarrow> 's frame \<Rightarrow>
     ('n error + ('n \<times> 's site_row) list) option" where
  \<comment> \<open>The result leaves \<open>r_cap\<close> out.\<close>
  "nearest_power_nodes fuel query node_collection resource_meta =
     (case power_tables (node_data_of node_collection) resource_meta of
        Inl e \<Rightarrow> Some (Inl e)
      | Inr st \<Rightarrow>
          (case power_loop fuel query st of
             None \<Rightarrow> None
           | Some (Inl e) \<Rightarrow> Some (Inl e)
           | Some (Inr st') \<Rightarrow>
               Some (Inr (map (\<lambda>n. (fst n, site_row.truncate (snd n))) (fst st')))))"

fun power_passes ::
  "nat \<Rightarrow> query \<Rightarrow> ('n, 's) nodes \<times> 's r_nodes \<Rightarrow> 'n error + (('n, 's) nodes \<times> 's r_nodes)" where
  \<comment> \<open>The tables after the given number of passes.\<close>
  "power_passes 0 query st = Inr st"
| "power_passes (Suc k) query st =
     (case power_pass query st of Inl e \<Rightarrow> Inl e | Inr st' \<Rightarrow> power_passes k query st')"

definition power_inputs :: "'n frame \<Rightarrow> 's frame \<Rightarrow> bool" where
  \<comment> \<open>The tables \<open>nearest_power_nodes\<close> works on: a request table of three columns, the
      third with the label that line 42 reads, and a resource table with the three columns
      that line 44 reads.\<close>
  "power_inputs node_data resource_meta \<longleftrightarrow>
     wf_frame node_data \<and> length (columns node_data) = 3 \<and>
     columns node_data ! 2 = ''capacity (MW)'' \<and>
     wf_frame resource_meta \<and>
     ''longitude'' \<in> set (columns resource_meta) \<and> ''latitude'' \<in> set (columns resource_meta) \<and>
     ''capacity'' \<in> set (columns resource_meta)"

subsection \<open>\<open>nearest_met_nodes\<close>\<close>

record met_row =
  met_latitude :: real
  met_longitude :: real
  met_site_id :: nat

definition coordinates :: "'i frame \<Rightarrow> point list" where
  \<comment> \<open>The points of a table with the columns \<open>latitude\<close> and \<open>longitude\<close>, in the order
      of its rows.\<close>
  "coordinates df =
     map (\<lambda>row. (snd row ! column_pos (columns df) ''latitude'',
                 snd row ! column_pos (columns df) ''longitude'')) (rows df)"

definition as_matrix :: "'i frame \<Rightarrow> point list option" where
  \<comment> \<open>\<open>df.as_matrix(['latitude', 'longitude'])\<close>, for the k-d tree. A column the table
      lacks is a column of NaN, and \<open>cKDTree\<close> of a matrix with a NaN is a \<open>ValueError\<close>
      (\<open>None\<close>); the matrix of a table of no rows has no NaN.\<close>
  "as_matrix df =
     (if ''latitude'' \<in> set (columns df) \<and> ''longitude'' \<in> set (columns df)
      then Some (coordinates df)
      else if rows df = [] then Some [] else None)"

definition nearest_met_nodes ::
  "query \<Rightarrow> 'n node_collection \<Rightarrow> 's frame \<Rightarrow> 'n error + ('n \<times> met_row) list" where
  \<comment> \<open>Lines 134 to 156. Line 143 assigns a table of two columns to the two columns, and
      a table of one column to both; another number of columns is a \<open>ValueError\<close>.
      \<open>site_id\<close> is the array of positions that \<open>query\<close> returns.\<close>
  "nearest_met_nodes query node_collection resource_meta =
     (let node_data = node_data_of node_collection in
      if length (columns node_data) \<noteq> 2 \<and> length (columns node_data) \<noteq> 1 then Inl ValueError
      else
        case as_matrix resource_meta of
          None \<Rightarrow> Inl ValueError
        | Some lat_lon \<Rightarrow>
          let node_lat_lon =
                map (\<lambda>row. (broadcast 2 (snd row) ! 0, broadcast 2 (snd row) ! 1)) (rows node_data);
              site_id = map (\<lambda>p. snd (query lat_lon p)) node_lat_lon
          in Inr (map2 (\<lambda>row s. (fst row,
                    \<lparr>met_latitude = broadcast 2 (snd row) ! 0,
                     met_longitude = broadcast 2 (snd row) ! 1, met_site_id = s\<rparr>))
                   (rows node_data) site_id))"

subsection \<open>Notions for the statements and the proofs\<close>

definition normal_form :: "real \<Rightarrow> nat \<Rightarrow> real \<Rightarrow> bool" where
  \<comment> \<open>What \<open>normalise a\<close> is to give.\<close>
  "normal_form a i m \<longleftrightarrow>
     i \<le> 2045 \<and> a = m * ulp i \<and> 0 \<le> m \<and>
     (2 ^ 52 \<le> m \<or> i = 0) \<and> (m < 2 ^ 53 \<or> i = 2045)"

definition unit_roundoff :: real where
  \<comment> \<open>The greatest relative error of rounding a number that is not subnormal.\<close>
  "unit_roundoff = 1 / 2 ^ 53"

definition tiny :: real where
  \<comment> \<open>The greatest error of rounding a subnormal number: half the least positive double.\<close>
  "tiny = 1 / 2 ^ 1075"

definition tolerance :: "nat \<Rightarrow> real" where
  \<comment> \<open>By what factor the fractions of a resource, times its capacity, can exceed the
      capacity after \<open>k\<close> assignments: every assignment rounds a fraction and a remainder.\<close>
  "tolerance k = (1 + unit_roundoff) * (1 + real k * unit_roundoff) + real k * tiny"

definition assignments :: "('s, 'z) site_row_scheme \<Rightarrow> ('s \<times> real) list" where
  \<comment> \<open>The pairs of a resource and the fraction of it that a row holds: \<open>site_id\<close> and
      \<open>site_fracs\<close> side by side, for a row of the working table or of the result.\<close>
  "assignments row =
     zip (case site_id row of None \<Rightarrow> [] | Some ids \<Rightarrow> ids)
         (case site_fracs row of None \<Rightarrow> [] | Some fracs \<Rightarrow> fracs)"

definition aligned :: "('s, 'z) site_row_scheme \<Rightarrow> bool" where
  \<comment> \<open>Both lists are missing, or both are there, of one length and not empty.\<close>
  "aligned row =
     (case (site_id row, site_fracs row) of
        (None, None) \<Rightarrow> True
      | (Some ids, Some fracs) \<Rightarrow> ids \<noteq> [] \<and> length ids = length fracs
      | _ \<Rightarrow> False)"

definition amount :: "resource_row \<Rightarrow> 's node_row \<Rightarrow> real" where
  \<comment> \<open>What one assignment moves from the resource to the node.\<close>
  "amount resource node = min (r_cap node) (res_r_cap resource)"

definition then_resource :: "resource_row \<Rightarrow> 's node_row \<Rightarrow> resource_row" where
  \<comment> \<open>The row of the resource after it was applied to the node: its remaining capacity
      goes down by the amount, in float arithmetic.\<close>
  "then_resource resource node =
     resource\<lparr>res_r_cap := fl (res_r_cap resource - amount resource node)\<rparr>"

definition then_node :: "'s \<Rightarrow> resource_row \<Rightarrow> 's node_row \<Rightarrow> 's node_row" where
  \<comment> \<open>The row of the node after the resource labelled \<open>file_id\<close> was applied to it: the
      label and the fraction are appended, the remaining demand goes down by the amount,
      in float arithmetic.\<close>
  "then_node file_id resource node =
     node\<lparr>r_cap := fl (r_cap node - amount resource node),
          site_id := Some (map fst (assignments node) @ [file_id]),
          site_fracs := Some (map snd (assignments node) @
                              [fl (amount resource node / res_capacity resource)])\<rparr>"

definition wf_tables :: "('n, 's) nodes \<times> 's r_nodes \<Rightarrow> bool" where
  \<comment> \<open>The working tables of a run: unique index labels, and aligned lists in every node
      row. The tables of \<open>power_tables\<close> are such, and every pass keeps them so.\<close>
  "wf_tables st \<longleftrightarrow>
     distinct (map fst (fst st)) \<and> distinct (map fst (snd st)) \<and>
     list_all (\<lambda>n. aligned (snd n)) (fst st)"

definition pass_pairs :: "query \<Rightarrow> ('n, 's) nodes \<times> 's r_nodes \<Rightarrow> ('s \<times> 'n) list" where
  \<comment> \<open>The labels \<open>(r_i, n_i)\<close> of lines 78 and 79, for the pairs of a pass.\<close>
  "pass_pairs query st =
     map (\<lambda>(i, n). (map fst (r_left_of (snd st)) ! i, map fst (nodes_left_of (fst st)) ! n))
       (groupby_idxmin (query_all query st))"

definition drawn :: "'s \<Rightarrow> ('n \<times> ('s, 'z) site_row_scheme) list \<Rightarrow> real" where
  \<comment> \<open>The sum, over all nodes, of the fractions of the resource \<open>s\<close> assigned to them.\<close>
  "drawn s nodes = (\<Sum>n\<leftarrow>nodes. \<Sum>a\<leftarrow>assignments (snd n). if fst a = s then snd a else 0)"

definition draws :: "'s \<Rightarrow> ('n \<times> ('s, 'z) site_row_scheme) list \<Rightarrow> nat" where
  \<comment> \<open>The number of assignments of the resource \<open>s\<close>, over all nodes.\<close>
  "draws s nodes = (\<Sum>n\<leftarrow>nodes. length (filter (\<lambda>a. fst a = s) (assignments (snd n))))"

definition inv_once :: "('n, 's) nodes \<times> 's r_nodes \<Rightarrow> bool" where
  \<comment> \<open>No node holds a resource twice, and the resources of a node that still has demand
      are used up.\<close>
  "inv_once st \<longleftrightarrow>
     (\<forall>n \<in> set (fst st).
        distinct (map fst (assignments (snd n))) \<and>
        (0 < r_cap (snd n) \<longrightarrow>
           (\<forall>s \<in> fst ` set (assignments (snd n)). \<forall>r \<in> set (loc (snd st) s). res_r_cap r \<le> 0)))"

definition inv_supply :: "('n, 's) nodes \<times> 's r_nodes \<Rightarrow> bool" where
  \<comment> \<open>The remainders are floats; what is left of a resource is not negative and not more
      than its capacity; and what is left and what was drawn make its capacity, up to the
      rounding of the assignments made.\<close>
  "inv_supply st \<longleftrightarrow>
     (\<forall>n \<in> set (fst st). fl (r_cap (snd n)) = r_cap (snd n)) \<and>
     (\<forall>r \<in> set (snd st).
        fl (res_r_cap (snd r)) = res_r_cap (snd r) \<and>
        0 \<le> res_r_cap (snd r) \<and> res_r_cap (snd r) \<le> res_capacity (snd r) \<and>
        res_r_cap (snd r) * (1 + unit_roundoff) + drawn (fst r) (fst st) * res_capacity (snd r)
          \<le> res_capacity (snd r) * tolerance (draws (fst r) (fst st)))"

definition open_rows :: "('n, 's) nodes \<times> 's r_nodes \<Rightarrow> nat" where
  \<comment> \<open>The number of nodes with demand left plus the number of resources with capacity
      left: every assignment takes one of the two rows out.\<close>
  "open_rows st = length (nodes_left_of (fst st)) + length (r_left_of (snd st))"

definition node_static :: "'n \<times> 's node_row \<Rightarrow> 'n \<times> real \<times> real \<times> real" where
  "node_static n = (fst n, latitude (snd n), longitude (snd n), capacity (snd n))"

definition res_static :: "'s \<times> resource_row \<Rightarrow> 's \<times> real \<times> real \<times> real" where
  "res_static r = (fst r, res_longitude (snd r), res_latitude (snd r), res_capacity (snd r))"

definition same_static ::
  "('n, 's) nodes \<times> 's r_nodes \<Rightarrow> ('n, 's) nodes \<times> 's r_nodes \<Rightarrow> bool" where
  \<comment> \<open>The labels, the coordinates and the capacities are those of the first tables.\<close>
  "same_static st st' \<longleftrightarrow>
     map node_static (fst st') = map node_static (fst st) \<and>
     map res_static (snd st') = map res_static (snd st)"

definition carried ::
  "('n, 's) nodes \<times> 's r_nodes \<Rightarrow> ('n, 's) nodes \<times> 's r_nodes \<Rightarrow> bool" where
  \<comment> \<open>What the tables \<open>st'\<close> of a later pass keep of the tables \<open>st\<close>.\<close>
  "carried st st' \<longleftrightarrow>
     wf_tables st' \<and> same_static st st' \<and>
     (inv_once st \<longrightarrow> inv_once st') \<and> (inv_supply st \<longrightarrow> inv_supply st')"

subsection \<open>Example tables\<close>

text \<open>
  Two nodes and two resources, the nearer resource too small for both nodes (the example
  of the specification; its fractions 0.8, 0.2 and 0.4 are the floats \<open>fl (4 / 5)\<close>,
  \<open>fl (1 / 5)\<close> and \<open>fl (2 / 5)\<close>); the same nodes with that resource alone, and the tables
  of that run at their start and after two passes; two nodes that name the same resource,
  the second one nearer to it; and three pairs of tables with one resource, on which the
  rounding shows:
  \<^item> the demands 1.2, 1.2 and 2.4 for the capacity 4.8, which is their sum;
  \<^item> the demands 1, 1 and \<open>2\<^sup>5\<^sup>3 + 4\<close> for the capacity \<open>2\<^sup>5\<^sup>3 + 4\<close>, which is less than their
    sum;
  \<^item> the demands 1 and 9 for the capacity 10.
\<close>

definition example_nodes :: "string frame" where
  "example_nodes =
     \<lparr>columns = [''latitude'', ''longitude'', ''capacity (MW)''],
      rows = [(''N1'', [0, 1, 8]), (''N2'', [1, 0, 4])]\<rparr>"

definition example_resources :: "string frame" where
  "example_resources =
     \<lparr>columns = [''latitude'', ''longitude'', ''capacity''],
      rows = [(''R1'', [0, 0, 10]), (''R2'', [10, 10, 5])]\<rparr>"

definition example_result :: "(string \<times> string site_row) list" where
  "example_result =
     [(''N1'', \<lparr>latitude = 0, longitude = 1, capacity = 8,
               site_id = Some [''R1''], site_fracs = Some [fl (4 / 5)]\<rparr>),
      (''N2'', \<lparr>latitude = 1, longitude = 0, capacity = 4,
               site_id = Some [''R1'', ''R2''], site_fracs = Some [fl (1 / 5), fl (2 / 5)]\<rparr>)]"

definition short_resources :: "string frame" where
  "short_resources =
     \<lparr>columns = [''latitude'', ''longitude'', ''capacity''], rows = [(''R1'', [0, 0, 10])]\<rparr>"

definition short_tables :: "(string, string) nodes \<times> string r_nodes" where
  "short_tables =
     ([(''N1'', \<lparr>latitude = 0, longitude = 1, capacity = 8, site_id = None, site_fracs = None, r_cap = 8\<rparr>),
       (''N2'', \<lparr>latitude = 1, longitude = 0, capacity = 4, site_id = None, site_fracs = None, r_cap = 4\<rparr>)],
      [(''R1'', \<lparr>res_longitude = 0, res_latitude = 0, res_capacity = 10, res_r_cap = 10\<rparr>)])"

definition short_after :: "(string, string) nodes \<times> string r_nodes" where
  "short_after =
     ([(''N1'', \<lparr>latitude = 0, longitude = 1, capacity = 8, site_id = Some [''R1''],
               site_fracs = Some [fl (4 / 5)], r_cap = 0\<rparr>),
       (''N2'', \<lparr>latitude = 1, longitude = 0, capacity = 4, site_id = Some [''R1''],
               site_fracs = Some [fl (1 / 5)], r_cap = 2\<rparr>)],
      [(''R1'', \<lparr>res_longitude = 0, res_latitude = 0, res_capacity = 10, res_r_cap = 0\<rparr>)])"

definition conflict_tables :: "(string, string) nodes \<times> string r_nodes" where
  "conflict_tables =
     ([(''N1'', \<lparr>latitude = 0, longitude = 7, capacity = 4, site_id = None, site_fracs = None, r_cap = 4\<rparr>),
       (''N2'', \<lparr>latitude = 0, longitude = 3, capacity = 8, site_id = None, site_fracs = None, r_cap = 8\<rparr>)],
      [(''R1'', \<lparr>res_longitude = 0, res_latitude = 0, res_capacity = 20, res_r_cap = 20\<rparr>)])"

definition conflict_after :: "(string, string) nodes \<times> string r_nodes" where
  "conflict_after =
     ([(''N1'', \<lparr>latitude = 0, longitude = 7, capacity = 4, site_id = None, site_fracs = None, r_cap = 4\<rparr>),
       (''N2'', \<lparr>latitude = 0, longitude = 3, capacity = 8, site_id = Some [''R1''],
               site_fracs = Some [fl (2 / 5)], r_cap = 0\<rparr>)],
      [(''R1'', \<lparr>res_longitude = 0, res_latitude = 0, res_capacity = 20, res_r_cap = 12\<rparr>)])"

definition residue_nodes :: "string frame" where
  "residue_nodes =
     \<lparr>columns = [''latitude'', ''longitude'', ''capacity (MW)''],
      rows = [(''N1'', [0, 1, fl (6 / 5)]), (''N2'', [0, 2, fl (6 / 5)]), (''N3'', [0, 3, fl (12 / 5)])]\<rparr>"

definition residue_resources :: "string frame" where
  "residue_resources =
     \<lparr>columns = [''latitude'', ''longitude'', ''capacity''], rows = [(''R1'', [0, 0, fl (24 / 5)])]\<rparr>"

definition absorbed_nodes :: "string frame" where
  "absorbed_nodes =
     \<lparr>columns = [''latitude'', ''longitude'', ''capacity (MW)''],
      rows = [(''N1'', [0, 1, 1]), (''N2'', [0, 2, 1]), (''N3'', [0, 3, 2 ^ 53 + 4])]\<rparr>"

definition absorbed_resources :: "string frame" where
  "absorbed_resources =
     \<lparr>columns = [''latitude'', ''longitude'', ''capacity''], rows = [(''R1'', [0, 0, 2 ^ 53 + 4])]\<rparr>"

definition tenth_nodes :: "string frame" where
  "tenth_nodes =
     \<lparr>columns = [''latitude'', ''longitude'', ''capacity (MW)''],
      rows = [(''N1'', [0, 1, 1]), (''N2'', [0, 2, 9])]\<rparr>"

definition tenth_resources :: "string frame" where
  "tenth_resources =
     \<lparr>columns = [''latitude'', ''longitude'', ''capacity''], rows = [(''R1'', [0, 0, 10])]\<rparr>"

definition tenth_result :: "(string \<times> string site_row) list" where
  "tenth_result =
     [(''N1'', \<lparr>latitude = 0, longitude = 1, capacity = 1,
               site_id = Some [''R1''], site_fracs = Some [fl (1 / 10)]\<rparr>),
      (''N2'', \<lparr>latitude = 0, longitude = 2, capacity = 9,
               site_id = Some [''R1''], site_fracs = Some [fl (9 / 10)]\<rparr>)]"

section \<open>Tables\<close>

lemma loc_set_loc_same: "loc (set_loc t l v) l = map (\<lambda>_. v) (loc t l)"
  by (induction t) (auto simp: loc_def set_loc_def)

lemma loc_set_loc_other: "l' \<noteq> l \<Longrightarrow> loc (set_loc t l v) l' = loc t l'"
  by (induction t) (auto simp: loc_def set_loc_def)

lemma map_fst_set_loc: "map fst (set_loc t l v) = map fst t"
  by (induction t) (auto simp: set_loc_def)

section \<open>Floats\<close>

text \<open>
  \<open>fl\<close> runs on numerals (\<open>fl_simps\<close>). It keeps the sign and the order, rounds a float
  to itself, is off by at most half the distance of the doubles around its argument, and
  gives the difference of two floats with a relative error of at most \<open>2\<^sup>-\<^sup>5\<^sup>3\<close>.
\<close>

lemma scale_up_numeral:
  "scale_up (numeral k) m =
     (if m < 4503599627370496 then scale_up (pred_numeral k) (2 * m) else (numeral k, m))"
  by (simp add: numeral_eq_Suc)

lemma scale_down_numeral:
  "scale_down (numeral k) i m =
     (if 9007199254740992 \<le> m then scale_down (pred_numeral k) (Suc i) (m / 2) else (i, m))"
  by (simp add: numeral_eq_Suc)

lemmas fl_simps = fl_def normalise_def round_even_def ulp_def scale_up_numeral scale_down_numeral Let_def

lemma ulp_mono: "i \<le> j \<Longrightarrow> ulp i \<le> ulp j"
  by (simp add: ulp_def divide_right_mono)

lemma ulp_Suc: "ulp (Suc i) = 2 * ulp i"
  by (simp add: ulp_def)

lemma ulp_pos: "0 < ulp i"
  by (simp add: ulp_def)

lemma round_even_floor: "\<lfloor>x\<rfloor> \<le> round_even x \<and> round_even x \<le> \<lfloor>x\<rfloor> + 1"
  by (simp add: round_even_def Let_def)

lemma round_even_error: "\<bar>of_int (round_even x) - x\<bar> \<le> 1 / 2"
proof -
  have "of_int \<lfloor>x\<rfloor> \<le> x" "x < of_int \<lfloor>x\<rfloor> + 1" by linarith+
  then show ?thesis by (auto simp: round_even_def Let_def)
qed

lemma round_even_of_int [simp]: "round_even (of_int k) = k"
  by (simp add: round_even_def)

lemma round_even_mono: "x \<le> y \<Longrightarrow> round_even x \<le> round_even y"
proof -
  assume xy: "x \<le> y"
  then have f: "\<lfloor>x\<rfloor> \<le> \<lfloor>y\<rfloor>" by (rule floor_mono)
  show ?thesis
  proof (cases "\<lfloor>x\<rfloor> = \<lfloor>y\<rfloor>")
    case True
    with xy show ?thesis by (auto simp: round_even_def Let_def)
  next
    case False
    with f have "\<lfloor>x\<rfloor> + 1 \<le> \<lfloor>y\<rfloor>" by simp
    with round_even_floor[of x] round_even_floor[of y] show ?thesis by linarith
  qed
qed

lemma round_even_ge: "of_int k \<le> x \<Longrightarrow> of_int k \<le> (of_int (round_even x) :: real)"
  using round_even_mono[of "of_int k" x] by simp

lemma round_even_le: "x \<le> of_int k \<Longrightarrow> (of_int (round_even x) :: real) \<le> of_int k"
  using round_even_mono[of x "of_int k"] by simp

lemma scale_up_spec:
  "scale_up i m = (j, n) \<Longrightarrow> 0 \<le> m \<Longrightarrow> m < 2 ^ 53 \<Longrightarrow>
   j \<le> i \<and> n * ulp j = m * ulp i \<and> 0 \<le> n \<and> (2 ^ 52 \<le> n \<or> j = 0) \<and> n < 2 ^ 53"
proof (induction i arbitrary: m)
  case 0
  then show ?case by simp
next
  case (Suc i)
  show ?case
  proof (cases "m < 2 ^ 52")
    case True
    with Suc.prems have "scale_up i (2 * m) = (j, n)" "0 \<le> 2 * m" "2 * m < 2 ^ 53" by simp_all
    from Suc.IH[OF this] show ?thesis by (simp add: ulp_Suc)
  next
    case False
    with Suc.prems show ?thesis by auto
  qed
qed

lemma scale_down_spec:
  "scale_down k i m = (j, n) \<Longrightarrow> 2 ^ 52 \<le> m \<Longrightarrow>
   i \<le> j \<and> j \<le> i + k \<and> n * ulp j = m * ulp i \<and> 2 ^ 52 \<le> n \<and> (n < 2 ^ 53 \<or> j = i + k)"
proof (induction k arbitrary: i m)
  case 0
  then show ?case by simp
next
  case (Suc k)
  show ?case
  proof (cases "2 ^ 53 \<le> m")
    case True
    with Suc.prems have "scale_down k (Suc i) (m / 2) = (j, n)" "2 ^ 52 \<le> m / 2" by simp_all
    from Suc.IH[OF this] show ?thesis by (simp add: ulp_Suc)
  next
    case False
    with Suc.prems show ?thesis by auto
  qed
qed

lemma ulp_1074 [simp]: "ulp 1074 = 1"
  by (simp add: ulp_def)

lemma normalise_normal_form:
  assumes "0 \<le> a" "normalise a = (i, m)"
  shows "normal_form a i m"
proof (cases "a < 2 ^ 52")
  case True
  with assms have "scale_up 1074 a = (i, m)" "a < 2 ^ 53" by (simp_all add: normalise_def)
  from scale_up_spec[OF this(1) assms(1) this(2)] show ?thesis
    by (auto simp: normal_form_def)
next
  case False
  with assms have "scale_down 971 1074 a = (i, m)" "2 ^ 52 \<le> a" by (simp_all add: normalise_def)
  from scale_down_spec[OF this] show ?thesis
    by (auto simp: normal_form_def)
qed

lemma normal_form_index_mono:
  assumes "normal_form a i m" "normal_form b j n" "a \<le> b"
  shows "i \<le> j"
proof (rule ccontr)
  assume "\<not> i \<le> j"
  then have ji: "Suc j \<le> i" by simp
  with assms(1,2) have m: "2 ^ 52 \<le> m" and n: "n < 2 ^ 53" by (auto simp: normal_form_def)
  from ulp_mono[OF ji] have u: "2 * ulp j \<le> ulp i" by (simp add: ulp_Suc)
  have "n * ulp j < 2 ^ 53 * ulp j" using n ulp_pos[of j] by simp
  also have "\<dots> = 2 ^ 52 * (2 * ulp j)" by simp
  also have "\<dots> \<le> m * ulp i" using m u ulp_pos[of j] by (intro mult_mono) simp_all
  finally show False using assms by (simp add: normal_form_def)
qed

lemma normal_form_unique:
  assumes "normal_form a i m" "normal_form a j n"
  shows "i = j \<and> m = n"
proof -
  have "i = j" using normal_form_index_mono[OF assms] normal_form_index_mono[OF assms(2,1)] by simp
  with assms ulp_pos[of j] show ?thesis by (simp add: normal_form_def)
qed

lemma normal_form_nonneg: "normal_form a i m \<Longrightarrow> 0 \<le> a"
  using ulp_pos[of i] by (simp add: normal_form_def)

lemma normal_form_normalise: "normal_form a i m \<Longrightarrow> normalise a = (i, m)"
proof -
  assume nf: "normal_form a i m"
  obtain j n where e: "normalise a = (j, n)" by (cases "normalise a")
  from normal_form_unique[OF normalise_normal_form[OF normal_form_nonneg[OF nf] e] nf] e
  show ?thesis by simp
qed

lemma fl_normal_form:
  assumes "normal_form a i m"
  shows "fl a = of_int (round_even m) * ulp i"
proof (cases "a = 0")
  case True
  with assms ulp_pos[of i] have "m = 0" by (simp add: normal_form_def)
  with True show ?thesis by (simp add: fl_def round_even_def split: prod.splits)
next
  case False
  with normal_form_nonneg[OF assms] have "sgn a = 1" "\<bar>a\<bar> = a" by simp_all
  then show ?thesis using normal_form_normalise[OF assms] by (simp add: fl_def)
qed

lemma normal_form_ex: "0 \<le> a \<Longrightarrow> \<exists>i m. normal_form a i m"
  using normalise_normal_form[of a] by (cases "normalise a") auto

lemma fl_minus: "fl (- x) = - fl x"
  by (simp add: fl_def split: prod.splits)

lemma fl_0 [simp]: "fl 0 = 0"
  by (simp add: fl_def split: prod.splits)

lemma fl_mono_nonneg:
  assumes "0 \<le> a" "a \<le> b"
  shows "fl a \<le> fl b"
proof -
  from assms normal_form_ex[of a] normal_form_ex[of b] obtain i m j n where
    nf: "normal_form a i m" "normal_form b j n" by auto
  note A = fl_normal_form[OF nf(1)] and B = fl_normal_form[OF nf(2)]
  from nf have ab: "a = m * ulp i" "b = n * ulp j" by (simp_all add: normal_form_def)
  have ij: "i \<le> j" by (rule normal_form_index_mono[OF nf assms(2)])
  show ?thesis
  proof (cases "i = j")
    case True
    with ab assms(2) ulp_pos[of j] have "m \<le> n" by simp
    then have "round_even m \<le> round_even n" by (rule round_even_mono)
    then show ?thesis unfolding A B True using ulp_pos[of j] by simp
  next
    case False
    with ij have lt: "Suc i \<le> j" by simp
    with nf have m: "m < 2 ^ 53" and n: "2 ^ 52 \<le> n" by (auto simp: normal_form_def)
    have "real_of_int (round_even m) \<le> 2 ^ 53" using m round_even_le[of m "2 ^ 53"] by simp
    then have 1: "fl a \<le> 2 ^ 53 * ulp i" unfolding A using ulp_pos[of i] by simp
    have "2 ^ 52 \<le> real_of_int (round_even n)" using n round_even_ge[of "2 ^ 52" n] by simp
    then have 2: "2 ^ 52 * ulp j \<le> fl b" unfolding B using ulp_pos[of j] by simp
    have "2 * ulp i \<le> ulp j" using ulp_mono[OF lt] by (simp add: ulp_Suc)
    with 1 2 show ?thesis by simp
  qed
qed

lemma fl_nonneg: "0 \<le> x \<Longrightarrow> 0 \<le> fl x"
  using fl_mono_nonneg[of 0 x] by simp

lemma fl_mono: "x \<le> y \<Longrightarrow> fl x \<le> fl y"
proof -
  assume xy: "x \<le> y"
  consider "0 \<le> x" | "x < 0" "0 \<le> y" | "y < 0" using xy by linarith
  then show ?thesis
  proof cases
    case 1
    then show ?thesis using xy by (rule fl_mono_nonneg)
  next
    case 2
    have "0 \<le> fl (- x)" "0 \<le> fl y" using 2 by (simp_all add: fl_nonneg)
    then show ?thesis by (simp add: fl_minus)
  next
    case 3
    have "fl (- y) \<le> fl (- x)" using 3 xy by (intro fl_mono_nonneg) simp_all
    then show ?thesis by (simp add: fl_minus)
  qed
qed

lemma fl_error_normal_form:
  assumes "normal_form a i m"
  shows "\<bar>fl a - a\<bar> \<le> ulp i / 2"
proof -
  from assms have a: "a = m * ulp i" by (simp add: normal_form_def)
  have "fl a - a = (of_int (round_even m) - m) * ulp i"
    unfolding fl_normal_form[OF assms] by (simp add: a algebra_simps)
  then have "\<bar>fl a - a\<bar> = \<bar>of_int (round_even m) - m\<bar> * ulp i"
    using ulp_pos[of i] by (simp add: abs_mult)
  also have "\<dots> \<le> 1 / 2 * ulp i" using round_even_error[of m] ulp_pos[of i] by (intro mult_right_mono) simp_all
  finally show ?thesis by simp
qed

lemma fl_error_nonneg:
  assumes "0 \<le> a"
  shows "\<bar>fl a - a\<bar> \<le> a / 2 ^ 53 \<or> \<bar>fl a - a\<bar> \<le> 1 / 2 ^ 1075"
proof -
  from assms normal_form_ex[of a] obtain i m where nf: "normal_form a i m" by auto
  note e = fl_error_normal_form[OF nf]
  from nf have a: "a = m * ulp i" by (simp add: normal_form_def)
  from nf consider "2 ^ 52 \<le> m" | "i = 0" by (auto simp: normal_form_def)
  then show ?thesis
  proof cases
    case 1
    then have "2 ^ 52 * ulp i \<le> a" unfolding a using ulp_pos[of i] by simp
    with e show ?thesis by simp
  next
    case 2
    with e show ?thesis by (simp add: ulp_def)
  qed
qed

lemma fl_idem_nonneg:
  assumes "0 \<le> a"
  shows "fl (fl a) = fl a \<and> (\<exists>k :: int. fl a = of_int k * ulp 0)"
proof -
  from assms normal_form_ex[of a] obtain i m where nf: "normal_form a i m" by auto
  note A = fl_normal_form[OF nf]
  let ?r = "round_even m"
  from nf have m0: "0 \<le> m" by (simp add: normal_form_def)
  then have r0: "0 \<le> real_of_int ?r" using round_even_ge[of 0 m] by simp
  have rl: "real_of_int ?r \<le> 2 ^ 53" if "m < 2 ^ 53" using that round_even_le[of m "2 ^ 53"] by simp
  have rg: "2 ^ 52 \<le> real_of_int ?r" if "2 ^ 52 \<le> m" using that round_even_ge[of "2 ^ 52" m] by simp
  have grid: "\<exists>k :: int. fl a = of_int k * ulp 0"
    unfolding A by (intro exI[of _ "?r * 2 ^ i"]) (simp add: ulp_def)
  have "fl (fl a) = fl a"
  proof (cases "real_of_int ?r = 2 ^ 53 \<and> i < 2045")
    case True
    have "normal_form (fl a) (Suc i) (of_int (2 ^ 52))"
      using True unfolding A by (simp add: normal_form_def ulp_Suc)
    from fl_normal_form[OF this] have "fl (fl a) = of_int (2 ^ 52) * ulp (Suc i)"
      unfolding round_even_of_int .
    also have "\<dots> = fl a" unfolding A using True by (simp add: ulp_Suc)
    finally show ?thesis .
  next
    case False
    have "real_of_int ?r < 2 ^ 53 \<or> i = 2045"
    proof (cases "i = 2045")
      case True then show ?thesis by simp
    next
      case F: False
      with nf have "m < 2 ^ 53" "i < 2045" by (simp_all add: normal_form_def)
      with rl False show ?thesis by fastforce
    qed
    moreover have "2 ^ 52 \<le> real_of_int ?r \<or> i = 0"
      using rg nf by (auto simp: normal_form_def)
    ultimately have "normal_form (fl a) i (of_int ?r)"
      using nf r0 unfolding A by (simp add: normal_form_def)
    from fl_normal_form[OF this] show ?thesis unfolding A by simp
  qed
  with grid show ?thesis by simp
qed

lemma fl_idem [simp]: "fl (fl x) = fl x"
proof (cases "0 \<le> x")
  case True
  then show ?thesis by (simp add: fl_idem_nonneg)
next
  case False
  then have "fl (fl (- x)) = fl (- x)" by (intro fl_idem_nonneg[THEN conjunct1]) simp
  then show ?thesis by (simp add: fl_minus)
qed

lemma fl_grid: "\<exists>k :: int. fl x = of_int k * ulp 0"
proof (cases "0 \<le> x")
  case True
  then show ?thesis by (simp add: fl_idem_nonneg)
next
  case False
  then have "\<exists>k :: int. fl (- x) = of_int k * ulp 0" by (intro fl_idem_nonneg[THEN conjunct2]) simp
  then obtain k :: int where "fl (- x) = of_int k * ulp 0" by blast
  then have "fl x = of_int (- k) * ulp 0" by (simp add: fl_minus)
  then show ?thesis by blast
qed

lemma fl_diff_error:
  assumes "fl a = a" "fl b = b" "b \<le> a"
  shows "\<bar>fl (a - b) - (a - b)\<bar> \<le> (a - b) / 2 ^ 53"
proof -
  from fl_grid[of a] fl_grid[of b] assms(1,2) obtain k l :: int where
    kl: "a = of_int k * ulp 0" "b = of_int l * ulp 0" by auto
  from assms(3) normal_form_ex[of "a - b"] obtain i m where nf: "normal_form (a - b) i m" by auto
  note e = fl_error_normal_form[OF nf]
  from nf have ab: "a - b = m * ulp i" by (simp add: normal_form_def)
  from nf consider "2 ^ 52 \<le> m" | "i = 0" by (auto simp: normal_form_def)
  then show ?thesis
  proof cases
    case 1
    then have "2 ^ 52 * ulp i \<le> a - b" unfolding ab using ulp_pos[of i] by simp
    with e show ?thesis by simp
  next
    case 2
    have "a - b = of_int (k - l) * ulp 0" by (simp add: kl algebra_simps)
    with ab 2 ulp_pos[of 0] have m: "m = of_int (k - l)" by simp
    have "fl (a - b) = a - b"
      unfolding fl_normal_form[OF nf] m round_even_of_int using ab m by simp
    with assms(3) show ?thesis by simp
  qed
qed

lemma fl_upper:
  assumes "0 \<le> x"
  shows "fl x \<le> x * (1 + unit_roundoff) + tiny"
proof -
  have "0 \<le> x / 2 ^ 53" "(0 :: real) \<le> 1 / 2 ^ 1075" using assms by simp_all
  with fl_error_nonneg[OF assms] have "fl x - x \<le> x / 2 ^ 53 + 1 / 2 ^ 1075"
    by (elim disjE) linarith+
  then show ?thesis by (simp add: unit_roundoff_def tiny_def algebra_simps)
qed

lemma fl_diff_upper:
  assumes "fl a = a" "fl b = b" "b \<le> a"
  shows "fl (a - b) \<le> (a - b) * (1 + unit_roundoff)"
proof -
  from fl_diff_error[OF assms] have "fl (a - b) - (a - b) \<le> (a - b) / 2 ^ 53" by linarith
  then show ?thesis by (simp add: unit_roundoff_def algebra_simps)
qed

lemma tolerance_Suc: "tolerance (Suc k) = tolerance k + (1 + unit_roundoff) * unit_roundoff + tiny"
  by (simp add: tolerance_def algebra_simps)

lemma tolerance_le: "tolerance k \<le> 1 + (real k + 1) / 2 ^ 52"
proof -
  have u: "unit_roundoff * unit_roundoff + tiny \<le> unit_roundoff" "0 \<le> unit_roundoff"
    by (simp_all add: unit_roundoff_def tiny_def)
  have "real k * (unit_roundoff * unit_roundoff + tiny) \<le> real k * unit_roundoff"
    using u(1) by (intro mult_left_mono) simp_all
  then have "tolerance k \<le> 1 + (real k + 1) * (2 * unit_roundoff)"
    using u(2) by (simp add: tolerance_def algebra_simps)
  then show ?thesis by (simp add: unit_roundoff_def)
qed

section \<open>The linear search is a k-d tree query\<close>

lemma first_min_spec:
  assumes "drop k all = ds" "b < k" "k \<le> length all" "best = all ! b"
    "\<forall>j<k. best \<le> all ! j"
  shows "\<exists>i<length all. first_min best b k ds = (all ! i, i) \<and> (\<forall>j<length all. all ! i \<le> all ! j)"
  using assms
proof (induction ds arbitrary: best b k)
  case Nil
  then show ?case by auto
next
  case (Cons d ds)
  from Cons.prems have k: "k < length all" by (cases "k < length all") auto
  from Cons_nth_drop_Suc[OF k] Cons.prems(1)
  have d: "d = all ! k" and ds: "drop (Suc k) all = ds" by auto
  show ?case
  proof (cases "d < best")
    case True
    have "\<forall>j<Suc k. d \<le> all ! j" using Cons.prems True d by (auto simp: less_Suc_eq)
    from Cons.IH[OF ds _ _ d this] k True show ?thesis by auto
  next
    case False
    have "\<forall>j<Suc k. best \<le> all ! j" using Cons.prems False d by (auto simp: less_Suc_eq)
    from Cons.IH[OF ds _ _ Cons.prems(4) this] k Cons.prems(2) False show ?thesis by auto
  qed
qed

lemma kdtree_query_first_nearest: "kdtree_query first_nearest"
  unfolding kdtree_query_def
proof (intro conjI allI impI)
  fix p show "first_nearest [] p = (Inf_dist, 0)" by (simp add: first_nearest_def)
next
  fix pts :: "point list" and p assume ne: "pts \<noteq> []"
  define all where "all = map (euclid p) pts"
  from ne obtain d ds where all: "all = d # ds" by (cases pts) (auto simp: all_def)
  have "\<exists>i<length all. first_min (all ! 0) 0 1 ds = (all ! i, i) \<and> (\<forall>j<length all. all ! i \<le> all ! j)"
    by (rule first_min_spec) (auto simp: all)
  then obtain i where i: "i < length all" "first_min d 0 1 ds = (all ! i, i)" "\<forall>j<length all. all ! i \<le> all ! j"
    by (auto simp: all)
  have "first_nearest pts p = (Dist (all ! i), i)"
    using i(2) all by (simp add: first_nearest_def all_def[symmetric])
  with i show "\<exists>i<length pts. first_nearest pts p = (Dist (euclid p (pts ! i)), i) \<and>
           (\<forall>j<length pts. euclid p (pts ! i) \<le> euclid p (pts ! j))"
    by (auto simp: all_def)
qed

lemma power_loop_numeral:
  "power_loop (numeral k) query st =
     (case power_pass query st of
        Inl e \<Rightarrow> Some (Inl e)
      | Inr st' \<Rightarrow>
          if length (nodes_left_of (fst st')) = 0 then Some (Inr st')
          else power_loop (pred_numeral k) query st')"
  by (simp add: numeral_eq_Suc)

lemma power_passes_numeral:
  "power_passes (numeral k) query st =
     (case power_pass query st of Inl e \<Rightarrow> Inl e | Inr st' \<Rightarrow> power_passes (pred_numeral k) query st')"
  by (simp add: numeral_eq_Suc)

lemmas run_simps = getitem_def power_tables_def init_nodes_def init_r_nodes_def
  power_pass_def query_all_def r_left_of_def nodes_left_of_def groupby_idxmin_def pos_group_def
  first_nearest_def euclid_def assign_def loc_def set_loc_def apportion_def add_site_def isnull_def
  site_row.truncate_def enumerate_eq_zip upt_conv_Cons broadcast_def as_matrix_def coordinates_def
  power_loop_numeral power_passes_numeral fl_simps

section \<open>One assignment\<close>

lemma assign_InrD:
  assumes "assign r_index n_index (nodes :: ('n, 's) nodes, r_nodes) (i, n) = Inr (nodes', r_nodes')"
  obtains resource node fraction resource' node' node''
  where "i < length r_index" "n < length n_index"
    "loc r_nodes (r_index ! i) = [resource]" "loc nodes (n_index ! n) = [node]"
    "apportion resource node = (fraction, resource', node')"
    "add_site (r_index ! i) fraction node' = (Inr node'' :: 'n error + 's node_row)"
    "nodes' = set_loc nodes (n_index ! n) node''"
    "r_nodes' = set_loc r_nodes (r_index ! i) resource'"
  using assms
  by (auto simp: assign_def Let_def split: if_splits list.splits prod.splits sum.splits)

text \<open>
  C2. For every pair of a node and a resource that a pass applies, with \<open>need\<close> the
  remaining demand of the node and \<open>cap\<close> the remaining capacity of the resource: if
  \<open>need < cap\<close>, the fraction appended is \<open>need\<close> over the total capacity of the resource,
  the remaining capacity goes down by \<open>need\<close> and the remaining demand becomes 0;
  otherwise, \<open>need = cap\<close> included, the fraction appended is \<open>cap\<close> over the total
  capacity, the remaining demand goes down by \<open>cap\<close> and the remaining capacity becomes 0.
  The quotients and the differences are those of the floats: \<open>fl\<close> of the exact ones.
  The code tests \<open>need > cap\<close>: at \<open>need = cap\<close> its two branches give the same
  rows and the same fraction.
\<close>

theorem assign_need_vs_cap:
  assumes "assign r_index n_index (nodes :: ('n, 's) nodes, r_nodes) (i, n) = Inr (nodes', r_nodes')"
  shows "\<exists>resource node node' ids fracs.
     loc r_nodes (r_index ! i) = [resource] \<and> loc nodes (n_index ! n) = [node] \<and>
     loc nodes' (n_index ! n) = [node'] \<and> site_id node' = Some (ids @ [r_index ! i]) \<and>
     (let need = r_cap node; cap = res_r_cap resource in
      if need < cap
      then site_fracs node' = Some (fracs @ [fl (need / res_capacity resource)]) \<and>
           loc r_nodes' (r_index ! i) = [resource\<lparr>res_r_cap := fl (cap - need)\<rparr>] \<and>
           r_cap node' = 0
      else site_fracs node' = Some (fracs @ [fl (cap / res_capacity resource)]) \<and>
           r_cap node' = fl (need - cap) \<and>
           loc r_nodes' (r_index ! i) = [resource\<lparr>res_r_cap := 0\<rparr>])"
proof -
  from assms obtain resource node fraction resource' node' node''
    where *: "loc r_nodes (r_index ! i) = [resource]" "loc nodes (n_index ! n) = [node]"
    "apportion resource node = (fraction, resource', node')"
    "add_site (r_index ! i) fraction node' = (Inr node'' :: 'n error + 's node_row)"
    "nodes' = set_loc nodes (n_index ! n) node''"
    "r_nodes' = set_loc r_nodes (r_index ! i) resource'"
    by (rule assign_InrD)
  have 1: "loc nodes' (n_index ! n) = [node'']" "loc r_nodes' (r_index ! i) = [resource']"
    using * by (simp_all add: loc_set_loc_same)
  from *(4) obtain ids fracs where 2: "site_id node'' = Some (ids @ [r_index ! i])"
     "site_fracs node'' = Some (fracs @ [fraction])" "r_cap node'' = r_cap node'"
    by (auto simp: add_site_def split: if_splits option.splits)
  show ?thesis
    apply (rule exI[of _ resource], rule exI[of _ node], rule exI[of _ node''], rule exI[of _ ids], rule exI[of _ fracs])
    using * 1 2 by (auto simp: apportion_def Let_def split: if_splits)
qed

theorem assign_need_vs_cap_witness:
  "assign [10 :: nat] [1 :: nat]
     ([(1, \<lparr>latitude = 0, longitude = 1, capacity = 8, site_id = None, site_fracs = None, r_cap = 8\<rparr>)],
      [(10, \<lparr>res_longitude = 0, res_latitude = 0, res_capacity = 10, res_r_cap = 10\<rparr>)]) (0, 0) =
   Inr ([(1, \<lparr>latitude = 0, longitude = 1, capacity = 8, site_id = Some [10], site_fracs = Some [fl (4 / 5)], r_cap = 0\<rparr>)],
        [(10, \<lparr>res_longitude = 0, res_latitude = 0, res_capacity = 10, res_r_cap = 2\<rparr>)]) \<and>
   (\<exists>resource node node' ids fracs.
     loc [(10 :: nat, \<lparr>res_longitude = 0, res_latitude = 0, res_capacity = 10, res_r_cap = 10\<rparr>)] ([10] ! 0) = [resource] \<and>
     loc [(1 :: nat, \<lparr>latitude = 0, longitude = 1, capacity = 8, site_id = None :: nat list option, site_fracs = None, r_cap = 8\<rparr>)] ([1] ! 0) = [node] \<and>
     loc [(1 :: nat, \<lparr>latitude = 0, longitude = 1, capacity = 8, site_id = Some [10 :: nat], site_fracs = Some [fl (4 / 5)], r_cap = 0\<rparr>)] ([1] ! 0) = [node'] \<and>
     site_id node' = Some (ids @ [[10] ! 0]) \<and>
     (let need = r_cap node; cap = res_r_cap resource in
      if need < cap
      then site_fracs node' = Some (fracs @ [fl (need / res_capacity resource)]) \<and>
           loc [(10 :: nat, \<lparr>res_longitude = 0, res_latitude = 0, res_capacity = 10, res_r_cap = 2\<rparr>)] ([10] ! 0) = [resource\<lparr>res_r_cap := fl (cap - need)\<rparr>] \<and>
           r_cap node' = 0
      else site_fracs node' = Some (fracs @ [fl (cap / res_capacity resource)]) \<and>
           r_cap node' = fl (need - cap) \<and>
           loc [(10 :: nat, \<lparr>res_longitude = 0, res_latitude = 0, res_capacity = 10, res_r_cap = 2\<rparr>)] ([10] ! 0) = [resource\<lparr>res_r_cap := 0\<rparr>]))"
proof -
  have h: "assign [10 :: nat] [1 :: nat]
     ([(1, \<lparr>latitude = 0, longitude = 1, capacity = 8, site_id = None, site_fracs = None, r_cap = 8\<rparr>)],
      [(10, \<lparr>res_longitude = 0, res_latitude = 0, res_capacity = 10, res_r_cap = 10\<rparr>)]) (0, 0) =
   (Inr ([(1, \<lparr>latitude = 0, longitude = 1, capacity = 8, site_id = Some [10], site_fracs = Some [fl (4 / 5)], r_cap = 0\<rparr>)],
        [(10, \<lparr>res_longitude = 0, res_latitude = 0, res_capacity = 10, res_r_cap = 2\<rparr>)]) :: nat error + _)"
    by (simp add: run_simps)
  show ?thesis using h assign_need_vs_cap [OF h] by blast
qed

section \<open>Invariants of the allocation loop\<close>

lemma apportion_amount:
  "apportion resource node =
     (fl (amount resource node / res_capacity resource),
      resource\<lparr>res_r_cap := fl (res_r_cap resource - amount resource node)\<rparr>,
      node\<lparr>r_cap := fl (r_cap node - amount resource node)\<rparr>)"
  by (simp add: apportion_def amount_def Let_def min_def)

lemma add_site_aligned:
  "aligned node \<Longrightarrow>
   add_site l f node =
     Inr (node\<lparr>site_id := Some (map fst (assignments node) @ [l]),
               site_fracs := Some (map snd (assignments node) @ [f])\<rparr>)"
  by (auto simp: add_site_def aligned_def isnull_def assignments_def split: option.splits)

lemma assign_then:
  assumes "i < length r_index" "n < length n_index"
    "loc r_nodes (r_index ! i) = [resource]" "loc nodes (n_index ! n) = [node]" "aligned node"
  shows "assign r_index n_index (nodes, r_nodes) (i, n) =
     Inr (set_loc nodes (n_index ! n) (then_node (r_index ! i) resource node),
          set_loc r_nodes (r_index ! i) (then_resource resource node))"
proof -
  have a: "aligned (node\<lparr>r_cap := fl (r_cap node - amount resource node)\<rparr>)"
    using assms(5) by (simp add: aligned_def)
  have b: "assignments (node\<lparr>r_cap := fl (r_cap node - amount resource node)\<rparr>) = assignments node"
    by (simp add: assignments_def)
  show ?thesis using assms(1-4)
    by (simp add: assign_def apportion_amount add_site_aligned[OF a] b then_node_def then_resource_def Let_def)
qed

lemma assignments_then_node:
  "aligned node \<Longrightarrow>
   assignments (then_node l resource node) =
     assignments node @ [(l, fl (amount resource node / res_capacity resource))]"
  by (auto simp: then_node_def assignments_def aligned_def split: option.splits)

lemma aligned_then_node: "aligned (then_node l resource node)"
  by (simp add: then_node_def aligned_def assignments_def)

lemma loc_eq_single_iff:
  "distinct (map fst t) \<Longrightarrow> loc t l = [v] \<longleftrightarrow> (l, v) \<in> set t"
proof (induction t)
  case Nil
  then show ?case by (simp add: loc_def)
next
  case (Cons a t)
  have "l \<notin> fst ` set t \<Longrightarrow> loc t l = []"
    by (auto simp: loc_def filter_empty_conv)
  with Cons show ?case by (cases a) (auto simp: loc_def image_iff)
qed

lemma set_set_loc:
  "loc t l = [old] \<Longrightarrow> distinct (map fst t) \<Longrightarrow> set (set_loc t l v) = insert (l, v) (set t - {(l, old)})"
  by (auto simp: set_loc_def loc_eq_single_iff image_iff dest: eq_key_imp_eq_value)

lemma wf_tables_step:
  assumes "wf_tables (nodes, r_nodes)"
  shows "wf_tables (set_loc nodes nl (then_node rl resource node), set_loc r_nodes rl' res')"
proof -
  have "list_all (\<lambda>n. aligned (snd n)) (set_loc nodes nl (then_node rl resource node))"
    using assms by (auto simp: wf_tables_def list_all_iff set_loc_def aligned_then_node)
  then show ?thesis using assms by (simp add: wf_tables_def map_fst_set_loc)
qed

lemma loc_single_mem: "loc t l = [v] \<Longrightarrow> (l, v) \<in> set t"
proof -
  assume "loc t l = [v]"
  then have "v \<in> set (loc t l)" by simp
  then show ?thesis by (auto simp: loc_def)
qed

lemma for_each_assign_inv:
  fixes P :: "('s \<times> 'n) list \<Rightarrow> ('n, 's) nodes \<times> 's r_nodes \<Rightarrow> bool"
  assumes step: "\<And>done nodes r_nodes rl nl resource node.
       P done (nodes, r_nodes) \<Longrightarrow> wf_tables (nodes, r_nodes) \<Longrightarrow>
       rl \<notin> fst ` set done \<Longrightarrow> nl \<notin> snd ` set done \<Longrightarrow>
       loc r_nodes rl = [resource] \<Longrightarrow> loc nodes nl = [node] \<Longrightarrow>
       0 < res_r_cap resource \<Longrightarrow> 0 < r_cap node \<Longrightarrow>
       P (done @ [(rl, nl)])
         (set_loc nodes nl (then_node rl resource node), set_loc r_nodes rl (then_resource resource node))"
  assumes "P done st" "wf_tables st"
    "\<forall>(i, n) \<in> set pairs. i < length r_index \<and> n < length n_index"
    "distinct (map (\<lambda>(i, n). r_index ! i) pairs)" "distinct (map (\<lambda>(i, n). n_index ! n) pairs)"
    "\<forall>(i, n) \<in> set pairs. r_index ! i \<notin> fst ` set done \<and> n_index ! n \<notin> snd ` set done"
    "\<forall>(i, n) \<in> set pairs.
       (\<exists>resource. loc (snd st) (r_index ! i) = [resource] \<and> 0 < res_r_cap resource) \<and>
       (\<exists>node. loc (fst st) (n_index ! n) = [node] \<and> 0 < r_cap node)"
  shows "\<exists>st'. for_each (assign r_index n_index) pairs st = (Inr st' :: 'n error + _) \<and> wf_tables st' \<and>
           P (done @ map (\<lambda>(i, n). (r_index ! i, n_index ! n)) pairs) st'"
  using assms(2-)
proof (induction pairs arbitrary: "done" st)
  case Nil
  then show ?case by simp
next
  case (Cons pair pairs)
  obtain i n where pair: "pair = (i, n)" by (cases pair)
  obtain nodes r_nodes where st: "st = (nodes, r_nodes)" by (cases st)
  let ?rl = "r_index ! i" and ?nl = "n_index ! n"
  from Cons.prems(3,7) pair st obtain resource node where
    rn: "i < length r_index" "n < length n_index"
      "loc r_nodes ?rl = [resource]" "0 < res_r_cap resource"
      "loc nodes ?nl = [node]" "0 < r_cap node"
    by auto
  have al: "aligned node"
    using Cons.prems(2) loc_single_mem[OF rn(5)] st by (auto simp: wf_tables_def list_all_iff)
  let ?st1 = "(set_loc nodes ?nl (then_node ?rl resource node), set_loc r_nodes ?rl (then_resource resource node))"
  have a: "assign r_index n_index st pair = Inr ?st1"
    unfolding st pair by (rule assign_then[OF rn(1,2,3,5) al])
  have nd: "?rl \<notin> fst ` set done" "?nl \<notin> snd ` set done"
    using Cons.prems(6) pair by auto
  have P1: "P (done @ [(?rl, ?nl)]) ?st1"
    using step[OF _ _ nd rn(3,5,4,6)] Cons.prems(1,2) st by simp
  have wf1: "wf_tables ?st1"
    using Cons.prems(2) st by (simp add: wf_tables_step)
  have others: "\<forall>(i', n') \<in> set pairs. r_index ! i' \<noteq> ?rl \<and> n_index ! n' \<noteq> ?nl"
    using Cons.prems(4,5) pair by (auto simp: image_iff)
  have "\<exists>st'. for_each (assign r_index n_index) pairs ?st1 = (Inr st' :: 'n error + _) \<and> wf_tables st' \<and>
           P ((done @ [(?rl, ?nl)]) @ map (\<lambda>(i, n). (r_index ! i, n_index ! n)) pairs) st'"
  proof (rule Cons.IH[OF P1 wf1])
    show "\<forall>(i, n)\<in>set pairs. i < length r_index \<and> n < length n_index"
      using Cons.prems(3) by simp
    show "distinct (map (\<lambda>(i, n). r_index ! i) pairs)" "distinct (map (\<lambda>(i, n). n_index ! n) pairs)"
      using Cons.prems(4,5) by simp_all
    show "\<forall>(i, n)\<in>set pairs. r_index ! i \<notin> fst ` set (done @ [(?rl, ?nl)]) \<and>
            n_index ! n \<notin> snd ` set (done @ [(?rl, ?nl)])"
      using Cons.prems(6) others by auto
    show "\<forall>(i, n)\<in>set pairs.
       (\<exists>resource. loc (snd ?st1) (r_index ! i) = [resource] \<and> 0 < res_r_cap resource) \<and>
       (\<exists>node. loc (fst ?st1) (n_index ! n) = [node] \<and> 0 < r_cap node)"
    proof (clarify, intro conjI)
      fix i' n' assume m: "(i', n') \<in> set pairs"
      with others have ne: "r_index ! i' \<noteq> ?rl" "n_index ! n' \<noteq> ?nl" by auto
      from m Cons.prems(7) st obtain resource' node' where
        "loc r_nodes (r_index ! i') = [resource']" "0 < res_r_cap resource'"
        "loc nodes (n_index ! n') = [node']" "0 < r_cap node'" by fastforce
      then show "\<exists>resource. loc (snd ?st1) (r_index ! i') = [resource] \<and> 0 < res_r_cap resource"
        "\<exists>node. loc (fst ?st1) (n_index ! n') = [node] \<and> 0 < r_cap node"
        using ne by (simp_all add: loc_set_loc_other)
    qed
  qed
  then show ?case using a pair by auto
qed

lemma dist_less_trans: "dist_less a b \<Longrightarrow> dist_less b c \<Longrightarrow> dist_less a c"
  by (cases a; cases b; cases c) auto

lemma dist_not_less_trans: "\<not> dist_less b a \<Longrightarrow> \<not> dist_less c b \<Longrightarrow> \<not> dist_less c a"
  by (cases a; cases b; cases c) auto

lemma dist_less_asym: "dist_less a b \<Longrightarrow> \<not> dist_less b a"
  by (cases a; cases b) auto

lemma dist_less_irrefl: "\<not> dist_less a a"
  by (cases a) auto

lemma idxmin_from_spec:
  "\<exists>d. (idxmin_from best xs, d) \<in> set (best # xs) \<and> (\<forall>x \<in> set (best # xs). \<not> dist_less (snd x) d)"
proof (induction xs arbitrary: best)
  case Nil
  then show ?case by (cases best) (auto simp: dist_less_irrefl)
next
  case (Cons x xs)
  let ?b = "if dist_less (snd x) (snd best) then x else best"
  from Cons.IH[of ?b] obtain d where
    d: "(idxmin_from ?b xs, d) \<in> set (?b # xs)" "\<forall>y \<in> set (?b # xs). \<not> dist_less (snd y) d"
    by blast
  have b: "\<not> dist_less (snd ?b) d" using d(2) by simp
  have "\<not> dist_less (snd best) (snd ?b)" "\<not> dist_less (snd x) (snd ?b)"
    by (auto simp: dist_less_irrefl dest: dist_less_asym)
  then have "\<not> dist_less (snd best) d" "\<not> dist_less (snd x) d"
    using b dist_not_less_trans by blast+
  with d show ?case by (intro exI[of _ d]) (auto split: if_splits)
qed

lemma set_pos_group:
  "set (pos_group dp p) = {(n, fst (dp ! n)) | n. n < length dp \<and> snd (dp ! n) = p}"
  by (auto simp: pos_group_def in_set_enumerate_eq)

lemma idxmin_pos_group:
  assumes "p \<in> snd ` set dp"
  shows "idxmin (pos_group dp p) < length dp \<and> snd (dp ! idxmin (pos_group dp p)) = p \<and>
     (\<forall>k<length dp. snd (dp ! k) = p \<longrightarrow> \<not> dist_less (fst (dp ! k)) (fst (dp ! idxmin (pos_group dp p))))"
proof -
  from assms obtain k where k: "k < length dp" "snd (dp ! k) = p"
    by (auto simp: in_set_conv_nth)
  then have "(k, fst (dp ! k)) \<in> set (pos_group dp p)" by (auto simp: set_pos_group)
  then obtain x xs where g: "pos_group dp p = x # xs" by (cases "pos_group dp p") auto
  from idxmin_from_spec[of x xs] obtain d where
    d: "(idxmin (pos_group dp p), d) \<in> set (pos_group dp p)" "\<forall>y \<in> set (pos_group dp p). \<not> dist_less (snd y) d"
    by (auto simp: g)
  from d(1) have w: "idxmin (pos_group dp p) < length dp" "snd (dp ! idxmin (pos_group dp p)) = p"
     "d = fst (dp ! idxmin (pos_group dp p))"
    by (auto simp: set_pos_group)
  have "\<forall>k<length dp. snd (dp ! k) = p \<longrightarrow> \<not> dist_less (fst (dp ! k)) d"
  proof (intro allI impI)
    fix k assume "k < length dp" "snd (dp ! k) = p"
    then have "(k, fst (dp ! k)) \<in> set (pos_group dp p)" by (auto simp: set_pos_group)
    with d(2) show "\<not> dist_less (fst (dp ! k)) d" by fastforce
  qed
  with w show ?thesis by simp
qed

lemma map_fst_groupby_idxmin: "map fst (groupby_idxmin dp) = sort (remdups (map snd dp))"
  by (simp add: groupby_idxmin_def comp_def)

lemma set_groupby_idxmin:
  "set (groupby_idxmin dp) = {(p, idxmin (pos_group dp p)) | p. p \<in> snd ` set dp}"
  by (auto simp: groupby_idxmin_def)

lemma distinct_fst_groupby_idxmin: "distinct (map fst (groupby_idxmin dp))"
  by (simp add: map_fst_groupby_idxmin)

lemma distinct_snd_groupby_idxmin: "distinct (map snd (groupby_idxmin dp))"
proof -
  have "inj_on snd (set (groupby_idxmin dp))"
  proof (rule inj_onI)
    fix x y assume xy: "x \<in> set (groupby_idxmin dp)" "y \<in> set (groupby_idxmin dp)"
      and s: "snd x = snd y"
    from xy(1) obtain p where x: "x = (p, idxmin (pos_group dp p))" "p \<in> snd ` set dp"
      unfolding set_groupby_idxmin by blast
    from xy(2) obtain p' where y: "y = (p', idxmin (pos_group dp p'))" "p' \<in> snd ` set dp"
      unfolding set_groupby_idxmin by blast
    from s x y have e: "idxmin (pos_group dp p) = idxmin (pos_group dp p')" by simp
    from idxmin_pos_group[OF x(2)] idxmin_pos_group[OF y(2)] e have "p = p'" by metis
    with x y show "x = y" by simp
  qed
  moreover have "distinct (groupby_idxmin dp)"
    using distinct_fst_groupby_idxmin[of dp] by (simp add: distinct_map)
  ultimately show ?thesis by (simp add: distinct_map)
qed

lemma groupby_idxmin_Nil: "groupby_idxmin dp = [] \<longleftrightarrow> dp = []"
proof -
  have "groupby_idxmin dp = [] \<longleftrightarrow> set (map fst (groupby_idxmin dp)) = {}" by simp
  also have "\<dots> \<longleftrightarrow> dp = []" unfolding map_fst_groupby_idxmin by simp
  finally show ?thesis .
qed

lemma kdtree_query_in_range:
  "kdtree_query query \<Longrightarrow> pts \<noteq> [] \<Longrightarrow> snd (query pts p) < length pts"
  unfolding kdtree_query_def by (metis snd_conv)

lemma length_query_all: "length (query_all query st) = length (nodes_left_of (fst st))"
  by (simp add: query_all_def Let_def)

lemma query_all_in_range:
  assumes "kdtree_query query" "r_left_of (snd st) \<noteq> []" "p \<in> snd ` set (query_all query st)"
  shows "p < length (r_left_of (snd st))"
  using assms kdtree_query_in_range[OF assms(1), of "map (\<lambda>r. (res_latitude (snd r), res_longitude (snd r))) (r_left_of (snd st))"]
  by (auto simp: query_all_def Let_def)

lemma distinct_map_nth:
  "distinct xs \<Longrightarrow> distinct ks \<Longrightarrow> \<forall>k \<in> set ks. k < length xs \<Longrightarrow> distinct (map ((!) xs) ks)"
  by (auto simp: distinct_map inj_on_def nth_eq_iff_index_eq)

lemma power_pass_exhausted:
  assumes "r_left_of (snd st) = []" "nodes_left_of (fst st) \<noteq> []"
  shows "power_pass query st = Inl IndexError"
proof -
  have "query_all query st \<noteq> []"
    using assms(2) length_query_all[of query st] by auto
  then have "groupby_idxmin (query_all query st) \<noteq> []" by (simp add: groupby_idxmin_Nil)
  then obtain pair pairs where p: "groupby_idxmin (query_all query st) = pair # pairs"
    by (cases "groupby_idxmin (query_all query st)") auto
  have "assign [] (map fst (nodes_left_of (fst st))) st pair = Inl IndexError"
    by (cases st; cases pair) (simp add: assign_def)
  then show ?thesis
    by (simp add: power_pass_def Let_def p assms(1))
qed

lemma power_pass_done:
  assumes "nodes_left_of (fst st) = []"
  shows "power_pass query st = Inr st"
proof -
  have "query_all query st = []" using assms by (simp add: query_all_def)
  then have "groupby_idxmin (query_all query st) = []" by (simp add: groupby_idxmin_Nil)
  then show ?thesis by (simp add: power_pass_def Let_def)
qed

lemma pass_prefix_inv:
  fixes P :: "('s \<times> 'n) list \<Rightarrow> ('n, 's) nodes \<times> 's r_nodes \<Rightarrow> bool"
  assumes step: "\<And>done nodes r_nodes rl nl resource node.
       P done (nodes, r_nodes) \<Longrightarrow> wf_tables (nodes, r_nodes) \<Longrightarrow>
       rl \<notin> fst ` set done \<Longrightarrow> nl \<notin> snd ` set done \<Longrightarrow>
       loc r_nodes rl = [resource] \<Longrightarrow> loc nodes nl = [node] \<Longrightarrow>
       0 < res_r_cap resource \<Longrightarrow> 0 < r_cap node \<Longrightarrow>
       P (done @ [(rl, nl)])
         (set_loc nodes nl (then_node rl resource node), set_loc r_nodes rl (then_resource resource node))"
  assumes "P [] st" "wf_tables st" "kdtree_query query" "r_left_of (snd st) \<noteq> []"
  shows "\<exists>st'. pass_prefix j query st = (Inr st' :: 'n error + _) \<and> wf_tables st' \<and>
           P (take j (pass_pairs query st)) st'"
proof -
  let ?r_left = "r_left_of (snd st)" and ?n_left = "nodes_left_of (fst st)"
  let ?r_index = "map fst ?r_left" and ?n_index = "map fst ?n_left"
  let ?dp = "query_all query st"
  let ?pairs = "groupby_idxmin ?dp"
  have dr: "distinct ?r_index" and dn: "distinct ?n_index"
    using assms(3) by (auto simp: wf_tables_def r_left_of_def nodes_left_of_def distinct_map_filter)
  have range: "\<forall>(i, n) \<in> set ?pairs. i < length ?r_index \<and> n < length ?n_index"
  proof (clarify)
    fix i n assume "(i, n) \<in> set ?pairs"
    then have i: "i \<in> snd ` set ?dp" and n: "n = idxmin (pos_group ?dp i)"
      unfolding set_groupby_idxmin by auto
    from query_all_in_range[OF assms(4,5) i] idxmin_pos_group[OF i] n
    show "i < length ?r_index \<and> n < length ?n_index" by (simp add: length_query_all)
  qed
  have m1: "map (\<lambda>(i, n). ?r_index ! i) ?pairs = map ((!) ?r_index) (map fst ?pairs)"
    and m2: "map (\<lambda>(i, n). ?n_index ! n) ?pairs = map ((!) ?n_index) (map snd ?pairs)"
    by (simp_all add: comp_def case_prod_unfold)
  have d1: "distinct (map (\<lambda>(i, n). ?r_index ! i) ?pairs)"
    unfolding m1 using range by (intro distinct_map_nth[OF dr distinct_fst_groupby_idxmin]) auto
  have d2: "distinct (map (\<lambda>(i, n). ?n_index ! n) ?pairs)"
    unfolding m2 using range by (intro distinct_map_nth[OF dn distinct_snd_groupby_idxmin]) auto
  have pos: "\<forall>(i, n) \<in> set ?pairs.
       (\<exists>resource. loc (snd st) (?r_index ! i) = [resource] \<and> 0 < res_r_cap resource) \<and>
       (\<exists>node. loc (fst st) (?n_index ! n) = [node] \<and> 0 < r_cap node)"
  proof (clarify, intro conjI)
    fix i n assume "(i, n) \<in> set ?pairs"
    with range have i: "i < length ?r_left" and n: "n < length ?n_left" by auto
    from i have "?r_left ! i \<in> set ?r_left" by simp
    then have "(?r_index ! i, snd (?r_left ! i)) \<in> set (snd st)" "0 < res_r_cap (snd (?r_left ! i))"
      using i by (auto simp: r_left_of_def)
    then show "\<exists>resource. loc (snd st) (?r_index ! i) = [resource] \<and> 0 < res_r_cap resource"
      using assms(3) by (auto simp: wf_tables_def loc_eq_single_iff)
    from n have "?n_left ! n \<in> set ?n_left" by simp
    then have "(?n_index ! n, snd (?n_left ! n)) \<in> set (fst st)" "0 < r_cap (snd (?n_left ! n))"
      using n by (auto simp: nodes_left_of_def)
    then show "\<exists>node. loc (fst st) (?n_index ! n) = [node] \<and> 0 < r_cap node"
      using assms(3) by (auto simp: wf_tables_def loc_eq_single_iff)
  qed
  have sub: "set (take j ?pairs) \<subseteq> set ?pairs" by (rule set_take_subset)
  have "\<exists>st'. for_each (assign ?r_index ?n_index) (take j ?pairs) st = (Inr st' :: 'n error + _) \<and>
           wf_tables st' \<and>
           P ([] @ map (\<lambda>(i, n). (?r_index ! i, ?n_index ! n)) (take j ?pairs)) st'"
  proof (rule for_each_assign_inv[where P = P, OF step assms(2,3)])
    show "\<forall>(i, n) \<in> set (take j ?pairs). i < length ?r_index \<and> n < length ?n_index"
    proof (rule ballI)
      fix x assume "x \<in> set (take j ?pairs)"
      with sub have "x \<in> set ?pairs" ..
      with range show "case x of (i, n) \<Rightarrow> i < length ?r_index \<and> n < length ?n_index"
        by (rule bspec)
    qed
    show "distinct (map (\<lambda>(i, n). ?r_index ! i) (take j ?pairs))"
      "distinct (map (\<lambda>(i, n). ?n_index ! n) (take j ?pairs))"
      using distinct_take[OF d1, of j] distinct_take[OF d2, of j] by (simp_all only: take_map)
    show "\<forall>(i, n) \<in> set (take j ?pairs). ?r_index ! i \<notin> fst ` set [] \<and> ?n_index ! n \<notin> snd ` set []"
      by simp
    show "\<forall>(i, n) \<in> set (take j ?pairs).
       (\<exists>resource. loc (snd st) (?r_index ! i) = [resource] \<and> 0 < res_r_cap resource) \<and>
       (\<exists>node. loc (fst st) (?n_index ! n) = [node] \<and> 0 < r_cap node)"
    proof (rule ballI)
      fix x assume "x \<in> set (take j ?pairs)"
      with sub have "x \<in> set ?pairs" ..
      with pos show "case x of (i, n) \<Rightarrow>
         (\<exists>resource. loc (snd st) (?r_index ! i) = [resource] \<and> 0 < res_r_cap resource) \<and>
         (\<exists>node. loc (fst st) (?n_index ! n) = [node] \<and> 0 < r_cap node)"
        by (rule bspec)
    qed
  qed
  then show ?thesis by (simp add: pass_prefix_def pass_pairs_def Let_def take_map)
qed

lemma pass_prefix_all:
  "pass_prefix (length (groupby_idxmin (query_all query st))) query st = power_pass query st"
  unfolding pass_prefix_def power_pass_def Let_def by (simp only: take_all order_refl)

lemma power_pass_inv:
  fixes P :: "('s \<times> 'n) list \<Rightarrow> ('n, 's) nodes \<times> 's r_nodes \<Rightarrow> bool"
  assumes step: "\<And>done nodes r_nodes rl nl resource node.
       P done (nodes, r_nodes) \<Longrightarrow> wf_tables (nodes, r_nodes) \<Longrightarrow>
       rl \<notin> fst ` set done \<Longrightarrow> nl \<notin> snd ` set done \<Longrightarrow>
       loc r_nodes rl = [resource] \<Longrightarrow> loc nodes nl = [node] \<Longrightarrow>
       0 < res_r_cap resource \<Longrightarrow> 0 < r_cap node \<Longrightarrow>
       P (done @ [(rl, nl)])
         (set_loc nodes nl (then_node rl resource node), set_loc r_nodes rl (then_resource resource node))"
  assumes "P [] st" "wf_tables st" "kdtree_query query" "r_left_of (snd st) \<noteq> []"
  shows "\<exists>st'. power_pass query st = (Inr st' :: 'n error + _) \<and> wf_tables st' \<and> P (pass_pairs query st) st'"
proof -
  let ?j = "length (groupby_idxmin (query_all query st))"
  from pass_prefix_inv[where P = P and j = ?j, OF step assms(2-)]
  have "\<exists>st'. power_pass query st = (Inr st' :: 'n error + _) \<and> wf_tables st' \<and>
          P (take ?j (pass_pairs query st)) st'"
    unfolding pass_prefix_all .
  moreover have "take ?j (pass_pairs query st) = pass_pairs query st"
    unfolding pass_pairs_def by (simp only: take_all length_map order_refl)
  ultimately show ?thesis by (simp only:)
qed



lemma loc_Nil_set_loc: "loc t l = [] \<Longrightarrow> set_loc t l v = t"
  by (induction t) (auto simp: loc_def set_loc_def split: if_splits)

lemma set_loc_Cons:
  "set_loc (a # t) l v = (if fst a = l then (fst a, v) else a) # set_loc t l v"
  by (simp add: set_loc_def)

lemma sum_list_set_loc:
  fixes f :: "'k \<times> 'v \<Rightarrow> real"
  shows "loc t l = [old] \<Longrightarrow>
    (\<Sum>kv\<leftarrow>set_loc t l v. f kv) = (\<Sum>kv\<leftarrow>t. f kv) - f (l, old) + f (l, v)"
proof (induction t)
  case Nil
  then show ?case by (simp add: loc_def)
next
  case (Cons a t)
  show ?case
  proof (cases "fst a = l")
    case True
    with Cons.prems have a: "a = (l, old)" and e: "loc t l = []"
      by (cases a; auto simp: loc_def)+
    show ?thesis by (simp add: set_loc_Cons loc_Nil_set_loc[OF e] a)
  next
    case False
    with Cons.prems have "loc t l = [old]" by (simp add: loc_def)
    from Cons.IH[OF this] False show ?thesis by (simp add: set_loc_Cons)
  qed
qed

lemma length_filter_set_loc:
  "loc t l = [old] \<Longrightarrow>
    length (filter Q (set_loc t l v)) + (if Q (l, old) then 1 else 0) =
    length (filter Q t) + (if Q (l, v) then 1 else 0)"
proof (induction t)
  case Nil
  then show ?case by (simp add: loc_def)
next
  case (Cons a t)
  show ?case
  proof (cases "fst a = l")
    case True
    with Cons.prems have a: "a = (l, old)" and e: "loc t l = []"
      by (cases a; auto simp: loc_def)+
    show ?thesis by (simp add: set_loc_Cons loc_Nil_set_loc[OF e] a)
  next
    case False
    with Cons.prems have "loc t l = [old]" by (simp add: loc_def)
    from Cons.IH[OF this] False show ?thesis by (simp add: set_loc_Cons)
  qed
qed

lemma wf_tables_aligned:
  "wf_tables (nodes, r_nodes) \<Longrightarrow> loc nodes nl = [node] \<Longrightarrow> aligned node"
  using loc_single_mem[of nodes nl node] by (fastforce simp: wf_tables_def list_all_iff)

lemma res_r_cap_then_resource:
  "res_r_cap (then_resource resource node) =
     (if res_r_cap resource < r_cap node then 0 else fl (res_r_cap resource - r_cap node))"
  by (simp add: then_resource_def amount_def min_def)

lemma r_cap_then_node:
  "r_cap (then_node rl resource node) =
     (if res_r_cap resource < r_cap node then fl (r_cap node - res_r_cap resource) else 0)"
  by (simp add: then_node_def amount_def min_def)

lemma inv_once_step:
  assumes inv: "inv_once (nodes, r_nodes)" and wf: "wf_tables (nodes, r_nodes)"
    and r: "loc r_nodes rl = [resource]" and n: "loc nodes nl = [node]"
    and pr: "0 < res_r_cap resource" and pn: "0 < r_cap node"
  shows "inv_once (set_loc nodes nl (then_node rl resource node), set_loc r_nodes rl (then_resource resource node))"
proof -
  let ?node' = "then_node rl resource node" and ?res' = "then_resource resource node"
  have al: "aligned node" by (rule wf_tables_aligned[OF wf n])
  have dn: "distinct (map fst nodes)" using wf by (simp add: wf_tables_def)
  have mem: "(nl, node) \<in> set nodes" by (rule loc_single_mem[OF n])
  have loc': "\<And>s. set (loc (set_loc r_nodes rl ?res') s) = (if s = rl then {?res'} else set (loc r_nodes s))"
    using r by (auto simp: loc_set_loc_same loc_set_loc_other)
  have old: "distinct (map fst (assignments node))"
    "\<forall>s \<in> fst ` set (assignments node). \<forall>r \<in> set (loc r_nodes s). res_r_cap r \<le> 0"
    using inv mem pn by (auto simp: inv_once_def)
  have fresh: "rl \<notin> fst ` set (assignments node)"
    using old(2) r pr by fastforce
  show ?thesis
    unfolding inv_once_def fst_conv snd_conv
  proof (intro ballI)
    fix x assume "x \<in> set (set_loc nodes nl ?node')"
    then consider "x = (nl, ?node')" | "x \<in> set nodes" "x \<noteq> (nl, node)"
      unfolding set_set_loc[OF n dn] by auto
    then show "distinct (map fst (assignments (snd x))) \<and>
        (0 < r_cap (snd x) \<longrightarrow>
           (\<forall>s \<in> fst ` set (assignments (snd x)). \<forall>r \<in> set (loc (set_loc r_nodes rl ?res') s). res_r_cap r \<le> 0))"
    proof cases
      case 1
      have d: "distinct (map fst (assignments ?node'))"
        using old(1) fresh by (simp add: assignments_then_node[OF al])
      have "\<forall>s \<in> fst ` set (assignments ?node'). \<forall>r \<in> set (loc (set_loc r_nodes rl ?res') s). res_r_cap r \<le> 0"
        if "0 < r_cap ?node'"
      proof -
        from that have "res_r_cap ?res' = 0"
          by (auto simp: r_cap_then_node res_r_cap_then_resource split: if_splits)
        then show ?thesis using old(2)
          by (auto simp: assignments_then_node[OF al] loc')
      qed
      with d 1 show ?thesis by simp
    next
      case 2
      then have a: "distinct (map fst (assignments (snd x)))"
        "0 < r_cap (snd x) \<Longrightarrow> \<forall>s \<in> fst ` set (assignments (snd x)). \<forall>r \<in> set (loc r_nodes s). res_r_cap r \<le> 0"
        using inv by (auto simp: inv_once_def)
      have "\<forall>s \<in> fst ` set (assignments (snd x)). \<forall>r \<in> set (loc (set_loc r_nodes rl ?res') s). res_r_cap r \<le> 0"
        if p: "0 < r_cap (snd x)"
      proof (intro ballI)
        fix s r assume s: "s \<in> fst ` set (assignments (snd x))" and rr: "r \<in> set (loc (set_loc r_nodes rl ?res') s)"
        have "s \<noteq> rl" using a(2)[OF p] s r pr by fastforce
        with rr have "r \<in> set (loc r_nodes s)" by (simp add: loc')
        with a(2)[OF p] s show "res_r_cap r \<le> 0" by blast
      qed
      with a(1) show ?thesis by simp
    qed
  qed
qed

lemma drawn_step:
  assumes wf: "wf_tables (nodes, r_nodes)" and n: "loc nodes nl = [node]"
  shows "drawn s (set_loc nodes nl (then_node rl resource node)) =
     drawn s nodes + (if rl = s then fl (amount resource node / res_capacity resource) else 0)"
proof -
  have al: "aligned node" by (rule wf_tables_aligned[OF wf n])
  show ?thesis
    unfolding drawn_def
    by (simp add: sum_list_set_loc[OF n] assignments_then_node[OF al])
qed

lemma res_capacity_then_resource [simp]:
  "res_capacity (then_resource resource node) = res_capacity resource"
  by (simp add: then_resource_def)

lemma draws_step:
  assumes wf: "wf_tables (nodes, r_nodes)" and n: "loc nodes nl = [node]"
  shows "draws s (set_loc nodes nl (then_node rl resource node)) =
     draws s nodes + (if rl = s then 1 else 0)"
proof -
  have al: "aligned node" by (rule wf_tables_aligned[OF wf n])
  have mem: "(nl, node) \<in> set nodes" by (rule loc_single_mem[OF n])
  have "(\<Sum>kv\<leftarrow>set_loc nodes nl (then_node rl resource node). f kv) + f (nl, node) =
        (\<Sum>kv\<leftarrow>nodes. f kv) + f (nl, then_node rl resource node)" for f :: "_ \<Rightarrow> nat"
    using n
  proof (induction nodes)
    case Nil
    then show ?case by (simp add: loc_def)
  next
    case (Cons a t)
    show ?case
    proof (cases "fst a = nl")
      case True
      with Cons.prems have a: "a = (nl, node)" and e: "loc t nl = []"
        by (cases a; auto simp: loc_def)+
      show ?thesis by (simp add: set_loc_Cons loc_Nil_set_loc[OF e] a)
    next
      case False
      with Cons.prems have "loc t nl = [node]" by (simp add: loc_def)
      from Cons.IH[OF this] False show ?thesis by (simp add: set_loc_Cons)
    qed
  qed
  from this[of "\<lambda>n. length (filter (\<lambda>a. fst a = s) (assignments (snd n)))"]
  show ?thesis
    unfolding draws_def by (simp add: assignments_then_node[OF al])
qed

lemma capacity_then_node [simp]: "capacity (then_node rl resource node) = capacity node"
  by (simp add: then_node_def)

lemma inv_supply_step:
  assumes inv: "inv_supply (nodes, r_nodes)" and wf: "wf_tables (nodes, r_nodes)"
    and r: "loc r_nodes rl = [resource]" and n: "loc nodes nl = [node]"
    and pr: "0 < res_r_cap resource" and pn: "0 < r_cap node"
  shows "inv_supply (set_loc nodes nl (then_node rl resource node), set_loc r_nodes rl (then_resource resource node))"
proof -
  let ?node' = "then_node rl resource node" and ?res' = "then_resource resource node"
  let ?nodes' = "set_loc nodes nl ?node'"
  define u where "u = unit_roundoff"
  define cap where "cap = res_r_cap resource"
  define need where "need = r_cap node"
  define C where "C = res_capacity resource"
  define D where "D = drawn rl nodes"
  define T where "T = tolerance (draws rl nodes)"
  define f where "f = fl (amount resource node / C)"
  have u0: "0 \<le> u" and t0: "0 \<le> tiny" by (simp_all add: u_def unit_roundoff_def tiny_def)
  have dn: "distinct (map fst nodes)" and dr: "distinct (map fst r_nodes)"
    using wf by (simp_all add: wf_tables_def)
  have memr: "(rl, resource) \<in> set r_nodes" by (rule loc_single_mem[OF r])
  have memn: "(nl, node) \<in> set nodes" by (rule loc_single_mem[OF n])
  from inv memr have fc: "fl cap = cap" and cC: "cap \<le> C"
    and bal: "cap * (1 + u) + D * C \<le> C * T"
    by (auto simp: inv_supply_def cap_def C_def D_def T_def u_def)
  from inv memn have fn: "fl need = need" by (auto simp: inv_supply_def need_def)
  from pr pn have p: "0 < cap" "0 < need" by (simp_all add: cap_def need_def)
  with cC have C0: "0 < C" by simp
  have am: "0 \<le> amount resource node / C" using p C0 by (simp add: amount_def cap_def need_def)
  have "f \<le> amount resource node / C * (1 + u) + tiny"
    unfolding f_def u_def by (rule fl_upper[OF am])
  then have "f * C \<le> (amount resource node / C * (1 + u) + tiny) * C"
    using C0 by (intro mult_right_mono) simp_all
  also have "\<dots> = amount resource node / C * C * (1 + u) + tiny * C"
    by (simp only: distrib_right mult.assoc mult.commute[of C])
  also have "\<dots> = amount resource node * (1 + u) + tiny * C" using C0 by simp
  finally have fC: "f * C \<le> amount resource node * (1 + u) + tiny * C" .
  define cap' where "cap' = res_r_cap ?res'"
  have cap': "cap' = (if cap < need then 0 else fl (cap - need))"
    by (simp add: cap'_def res_r_cap_then_resource cap_def need_def)
  have f': "fl cap' = cap'" by (simp add: cap')
  have n': "0 \<le> cap'" using fl_nonneg[of "cap - need"] by (simp add: cap')
  have "fl (cap - need) \<le> fl cap" using p by (intro fl_mono) simp
  with fc cC p have l': "cap' \<le> C" by (simp add: cap')
  have step: "cap' * (1 + u) + (D + f) * C \<le> C * (T + (1 + u) * u + tiny)"
  proof (cases "cap < need")
    case True
    then have a: "amount resource node = cap" by (simp add: amount_def cap_def need_def)
    have "0 \<le> C * ((1 + u) * u)" using C0 u0 by simp
    with fC bal True show ?thesis by (simp add: cap' a algebra_simps)
  next
    case False
    then have a: "amount resource node = need" by (simp add: amount_def cap_def need_def)
    from False have le: "need \<le> cap" by simp
    have "cap' \<le> (cap - need) * (1 + u)"
      using fl_diff_upper[OF fc fn le] False by (simp add: cap' u_def)
    then have "cap' * (1 + u) \<le> (cap - need) * (1 + u) * (1 + u)"
      using u0 by (intro mult_right_mono) simp_all
    moreover have "(cap - need) * ((1 + u) * u) \<le> C * ((1 + u) * u)"
      using cC p u0 by (intro mult_right_mono) simp_all
    ultimately show ?thesis using fC bal by (simp add: a algebra_simps)
  qed
  have node': "fl (r_cap ?node') = r_cap ?node'" by (simp add: r_cap_then_node)
  show ?thesis
    unfolding inv_supply_def fst_conv snd_conv
  proof (rule conjI; rule ballI)
    fix x assume "x \<in> set ?nodes'"
    then consider "x = (nl, ?node')" | "x \<in> set nodes"
      unfolding set_set_loc[OF n dn] by auto
    then show "fl (r_cap (snd x)) = r_cap (snd x)"
    proof cases
      case 1
      with node' show ?thesis by simp
    next
      case 2
      with inv show ?thesis by (auto simp: inv_supply_def)
    qed
  next
    fix x assume "x \<in> set (set_loc r_nodes rl ?res')"
    then have "x = (rl, ?res') \<or> x \<in> set r_nodes \<and> x \<noteq> (rl, resource)"
      unfolding set_set_loc[OF r dr] by auto
    moreover have "fst x \<noteq> rl" if "x \<in> set r_nodes" "x \<noteq> (rl, resource)"
      using that eq_key_imp_eq_value[OF dr memr, of "snd x"] by (cases x) auto
    ultimately consider "x = (rl, ?res')" | "x \<in> set r_nodes" "fst x \<noteq> rl"
      by blast
    then show "fl (res_r_cap (snd x)) = res_r_cap (snd x) \<and>
        0 \<le> res_r_cap (snd x) \<and> res_r_cap (snd x) \<le> res_capacity (snd x) \<and>
        res_r_cap (snd x) * (1 + unit_roundoff) + drawn (fst x) ?nodes' * res_capacity (snd x)
          \<le> res_capacity (snd x) * tolerance (draws (fst x) ?nodes')"
    proof cases
      case 1
      have "drawn rl ?nodes' = D + f" "draws rl ?nodes' = Suc (draws rl nodes)"
        by (simp_all add: drawn_step[OF wf n] draws_step[OF wf n] D_def f_def C_def)
      with step f' n' l' 1 show ?thesis
        by (simp add: tolerance_Suc cap'_def[symmetric] u_def C_def T_def algebra_simps)
    next
      case 2
      with inv show ?thesis by (auto simp: inv_supply_def drawn_step[OF wf n] draws_step[OF wf n])
    qed
  qed
qed

lemma open_rows_step:
  assumes r: "loc r_nodes rl = [resource]" and n: "loc nodes nl = [node]"
    and pr: "0 < res_r_cap resource" and pn: "0 < r_cap node"
  shows "open_rows (set_loc nodes nl (then_node rl resource node), set_loc r_nodes rl (then_resource resource node))
     < open_rows (nodes, r_nodes)"
proof -
  let ?Qn = "\<lambda>n :: _ \<times> _ node_row. 0 < r_cap (snd n)" and ?Qr = "\<lambda>r. 0 < res_r_cap (snd r)"
  from length_filter_set_loc[OF n, of ?Qn "then_node rl resource node"] pn
  have a: "length (filter ?Qn (set_loc nodes nl (then_node rl resource node))) + 1 =
     length (filter ?Qn nodes) + (if 0 < r_cap (then_node rl resource node) then 1 else 0)"
    by simp
  from length_filter_set_loc[OF r, of ?Qr "then_resource resource node"] pr
  have b: "length (filter ?Qr (set_loc r_nodes rl (then_resource resource node))) + 1 =
     length (filter ?Qr r_nodes) + (if 0 < res_r_cap (then_resource resource node) then 1 else 0)"
    by simp
  have "\<not> (0 < r_cap (then_node rl resource node) \<and> 0 < res_r_cap (then_resource resource node))"
    by (simp add: r_cap_then_node res_r_cap_then_resource)
  with a b show ?thesis
    by (auto simp: open_rows_def nodes_left_of_def r_left_of_def split: if_splits)
qed

lemma map_set_loc_same:
  "loc t l = [old] \<Longrightarrow> f (l, v) = f (l, old) \<Longrightarrow> map f (set_loc t l v) = map f t"
proof (induction t)
  case Nil
  then show ?case by (simp add: set_loc_def)
next
  case (Cons a t)
  show ?case
  proof (cases "fst a = l")
    case True
    with Cons.prems have a: "a = (l, old)" and e: "loc t l = []"
      by (cases a; auto simp: loc_def)+
    show ?thesis using Cons.prems(2) by (simp add: set_loc_Cons loc_Nil_set_loc[OF e] a)
  next
    case False
    with Cons.prems have "loc t l = [old]" by (simp add: loc_def)
    from Cons.IH[OF this Cons.prems(2)] False show ?thesis by (simp add: set_loc_Cons)
  qed
qed

lemma same_static_step:
  assumes "same_static st0 (nodes, r_nodes)" "loc r_nodes rl = [resource]" "loc nodes nl = [node]"
  shows "same_static st0 (set_loc nodes nl (then_node rl resource node), set_loc r_nodes rl (then_resource resource node))"
proof -
  have "map node_static (set_loc nodes nl (then_node rl resource node)) = map node_static nodes"
    by (rule map_set_loc_same[OF assms(3)]) (simp add: node_static_def then_node_def)
  moreover have "map res_static (set_loc r_nodes rl (then_resource resource node)) = map res_static r_nodes"
    by (rule map_set_loc_same[OF assms(2)]) (simp add: res_static_def then_resource_def)
  ultimately show ?thesis using assms(1) by (simp add: same_static_def)
qed

lemma carried_refl: "wf_tables st \<Longrightarrow> carried st st"
  by (simp add: carried_def same_static_def)

lemma carried_trans: "carried st st' \<Longrightarrow> carried st' st'' \<Longrightarrow> carried st st''"
  by (auto simp: carried_def same_static_def)

lemma pass_prefix_ok:
  fixes st :: "('n, 's) nodes \<times> 's r_nodes"
  assumes wf: "wf_tables st" and q: "kdtree_query query" and r: "r_left_of (snd st) \<noteq> []"
  shows "\<exists>st'. pass_prefix j query st = (Inr st' :: 'n error + _) \<and> carried st st' \<and>
     open_rows st' + length (take j (pass_pairs query st)) \<le> open_rows st"
proof -
  define P where "P = (\<lambda>(done :: ('s \<times> 'n) list) s.
     same_static st s \<and>
     (inv_once st \<longrightarrow> inv_once s) \<and> (inv_supply st \<longrightarrow> inv_supply s) \<and>
     open_rows s + length done \<le> open_rows st)"
  have "\<exists>st'. pass_prefix j query st = (Inr st' :: 'n error + _) \<and> wf_tables st' \<and>
          P (take j (pass_pairs query st)) st'"
  proof (rule pass_prefix_inv[where P = P, OF _ _ wf q r])
    show "P [] st" by (simp add: P_def same_static_def)
  next
    fix "done" :: "('s \<times> 'n) list" and nodes :: "('n, 's) nodes" and r_nodes :: "'s r_nodes"
      and rl nl resource node
    assume a: "P done (nodes, r_nodes)" "wf_tables (nodes, r_nodes)"
      "loc r_nodes rl = [resource]" "loc nodes nl = [node]"
      "0 < res_r_cap resource" "0 < r_cap node"
    let ?s' = "(set_loc nodes nl (then_node rl resource node), set_loc r_nodes rl (then_resource resource node))"
    from a(1) have old: "same_static st (nodes, r_nodes)"
      "inv_once st \<longrightarrow> inv_once (nodes, r_nodes)" "inv_supply st \<longrightarrow> inv_supply (nodes, r_nodes)"
      "open_rows (nodes, r_nodes) + length done \<le> open_rows st"
      by (simp_all add: P_def)
    have "same_static st ?s'" by (rule same_static_step[OF old(1) a(3,4)])
    moreover have "inv_once st \<longrightarrow> inv_once ?s'" using inv_once_step[OF _ a(2-6)] old(2) by blast
    moreover have "inv_supply st \<longrightarrow> inv_supply ?s'" using inv_supply_step[OF _ a(2-6)] old(3) by blast
    moreover have "open_rows ?s' + length (done @ [(rl, nl)]) \<le> open_rows st"
      using open_rows_step[OF a(3-6)] old(4) by simp
    ultimately show "P (done @ [(rl, nl)]) ?s'" by (simp add: P_def)
  qed
  then obtain st' where "pass_prefix j query st = (Inr st' :: 'n error + _)" "wf_tables st'"
     "P (take j (pass_pairs query st)) st'" by blast
  then show ?thesis unfolding P_def carried_def by blast
qed

lemma power_pass_ok:
  fixes st :: "('n, 's) nodes \<times> 's r_nodes"
  assumes wf: "wf_tables st" and q: "kdtree_query query" and r: "r_left_of (snd st) \<noteq> []"
  shows "\<exists>st'. power_pass query st = (Inr st' :: 'n error + _) \<and> carried st st' \<and>
     open_rows st' + length (pass_pairs query st) \<le> open_rows st"
proof -
  let ?j = "length (groupby_idxmin (query_all query st))"
  have "take ?j (pass_pairs query st) = pass_pairs query st"
    unfolding pass_pairs_def by (simp only: take_all length_map order_refl)
  with pass_prefix_ok[OF assms, of ?j] show ?thesis
    unfolding pass_prefix_all by (simp only:)
qed

lemma length_pass_pairs:
  "nodes_left_of (fst st) \<noteq> [] \<Longrightarrow> 0 < length (pass_pairs query st)"
  using length_query_all[of query st] groupby_idxmin_Nil[of "query_all query st"]
  by (auto simp: pass_pairs_def)

lemma power_pass_Inr:
  fixes st :: "('n, 's) nodes \<times> 's r_nodes"
  assumes wf: "wf_tables st" and q: "kdtree_query query"
    and p: "power_pass query st = (Inr st' :: 'n error + _)"
  shows "carried st st'"
proof (cases "nodes_left_of (fst st) = []")
  case True
  with p power_pass_done[of st query] wf show ?thesis by (simp add: carried_refl)
next
  case False
  with p power_pass_exhausted[of st query] have "r_left_of (snd st) \<noteq> []" by auto
  from power_pass_ok[OF wf q this] p show ?thesis by auto
qed

lemma pass_prefix_Inr:
  fixes st :: "('n, 's) nodes \<times> 's r_nodes"
  assumes wf: "wf_tables st" and q: "kdtree_query query"
    and p: "pass_prefix j query st = (Inr st' :: 'n error + _)"
  shows "carried st st'"
proof (cases "r_left_of (snd st) = []")
  case False
  from pass_prefix_ok[OF wf q False, of j] p show ?thesis by auto
next
  case True
  show ?thesis
  proof (cases "take j (groupby_idxmin (query_all query st))")
    case Nil
    with p have "st' = st" by (simp add: pass_prefix_def Let_def)
    with wf show ?thesis by (simp add: carried_refl)
  next
    case (Cons pair pairs)
    have "assign [] (map fst (nodes_left_of (fst st))) st pair = (Inl IndexError :: 'n error + _)"
      by (cases st; cases pair) (simp add: assign_def)
    with p Cons True show ?thesis by (simp add: pass_prefix_def Let_def)
  qed
qed

lemma power_loop_Inr:
  fixes st :: "('n, 's) nodes \<times> 's r_nodes"
  assumes "wf_tables st" "kdtree_query query"
    "power_loop k query st = Some (Inr st' :: 'n error + _)"
  shows "carried st st' \<and> nodes_left_of (fst st') = []"
  using assms
proof (induction k arbitrary: st)
  case 0
  then show ?case by simp
next
  case (Suc k)
  from Suc.prems(3) obtain st1 where p: "power_pass query st = (Inr st1 :: 'n error + _)"
    by (auto split: sum.splits)
  have c: "carried st st1" by (rule power_pass_Inr[OF Suc.prems(1,2) p])
  show ?case
  proof (cases "nodes_left_of (fst st1) = []")
    case True
    with Suc.prems(3) p c show ?thesis by simp
  next
    case False
    with Suc.prems(3) p have "power_loop k query st1 = Some (Inr st')" by simp
    moreover have "wf_tables st1" using c by (simp add: carried_def)
    ultimately have "carried st1 st' \<and> nodes_left_of (fst st') = []"
      using Suc.IH[of st1] Suc.prems(2) by blast
    with c show ?thesis using carried_trans by blast
  qed
qed

lemma open_rows_pos: "nodes_left_of (fst st) \<noteq> [] \<Longrightarrow> 0 < open_rows st"
  by (simp add: open_rows_def)

lemma power_loop_ends:
  fixes st :: "('n, 's) nodes \<times> 's r_nodes"
  assumes "wf_tables st" "kdtree_query query" "open_rows st \<le> k" "0 < k"
  shows "power_loop k query st = Some (Inl IndexError :: 'n error + _) \<or>
     (\<exists>st'. power_loop k query st = Some (Inr st' :: 'n error + _))"
  using assms
proof (induction k arbitrary: st)
  case 0
  then show ?case by simp
next
  case (Suc k)
  show ?case
  proof (cases "nodes_left_of (fst st) = []")
    case True
    then show ?thesis using power_pass_done[of st query] by simp
  next
    case False
    show ?thesis
    proof (cases "r_left_of (snd st) = []")
      case True
      from power_pass_exhausted[OF True False] show ?thesis by simp
    next
      case r: False
      from power_pass_ok[OF Suc.prems(1,2) r] obtain st1 where
        p: "power_pass query st = (Inr st1 :: 'n error + _)" and c: "carried st st1"
        and o: "open_rows st1 + length (pass_pairs query st) \<le> open_rows st"
        by blast
      from o length_pass_pairs[OF False, of query] Suc.prems(3) have k: "open_rows st1 \<le> k"
        by (cases "pass_pairs query st") auto
      show ?thesis
      proof (cases "nodes_left_of (fst st1) = []")
        case True
        with p show ?thesis by simp
      next
        case n1: False
        from open_rows_pos[OF n1] k have "0 < k" by simp
        moreover from c have "wf_tables st1" by (simp add: carried_def)
        ultimately have "power_loop k query st1 = Some (Inl IndexError :: 'n error + _) \<or>
            (\<exists>st'. power_loop k query st1 = Some (Inr st' :: 'n error + _))"
          using Suc.IH[of st1] Suc.prems(2) k by blast
        with p n1 show ?thesis by simp
      qed
    qed
  qed
qed

lemma getitem_third:
  assumes "wf_frame nd" "length (columns nd) = 3" "columns nd ! 2 = c"
  shows "getitem nd c = Inr (map (\<lambda>row. snd row ! 2) (rows nd))"
proof -
  from assms(2) obtain a b c' where cols: "columns nd = [a, b, c']"
    by (auto simp: numeral_3_eq_3 length_Suc_conv)
  with assms(1,3) have "c' = c" "a \<noteq> c" "b \<noteq> c" by (auto simp: wf_frame_def)
  then show ?thesis by (simp add: getitem_def cols numeral_2_eq_2)
qed

lemma init_nodes_map:
  "init_nodes nd (map f (rows nd)) =
     map (\<lambda>row. (fst row,
             \<lparr>latitude = broadcast 3 (snd row) ! 0, longitude = broadcast 3 (snd row) ! 1,
              capacity = broadcast 3 (snd row) ! 2,
              site_id = None, site_fracs = None, r_cap = f row\<rparr>)) (rows nd)"
  by (simp add: init_nodes_def zip_map2 zip_same_conv_map)

lemma init_r_nodes_map:
  "init_r_nodes (map fst rs) (map f rs) (map g rs) (map h rs) =
     map (\<lambda>row. (fst row,
            \<lparr>res_longitude = f row, res_latitude = g row, res_capacity = h row, res_r_cap = h row\<rparr>)) rs"
  by (induction rs) (simp_all add: init_r_nodes_def)

lemma power_tables_start:
  fixes nd :: "'n frame" and rm :: "'s frame"
  assumes "power_inputs nd rm"
  shows "\<exists>demand cap st0.
     getitem nd ''capacity (MW)'' = (Inr demand :: 'n error + _) \<and>
     getitem rm ''capacity'' = (Inr cap :: 'n error + _) \<and>
     power_tables nd rm = (Inr st0 :: 'n error + (('n, 's) nodes \<times> 's r_nodes)) \<and>
     wf_tables st0 \<and>
     map fst (fst st0) = map fst (rows nd) \<and>
     map (\<lambda>n. r_cap (snd n)) (fst st0) = demand \<and>
     map (\<lambda>n. capacity (snd n)) (fst st0) = demand \<and>
     (\<forall>n \<in> set (fst st0). assignments (snd n) = []) \<and>
     map fst (snd st0) = map fst (rows rm) \<and>
     map (\<lambda>r. res_capacity (snd r)) (snd st0) = cap \<and>
     map (\<lambda>r. res_r_cap (snd r)) (snd st0) = cap"
proof -
  from assms have nd: "wf_frame nd" "length (columns nd) = 3" "columns nd ! 2 = ''capacity (MW)''"
    and rm: "wf_frame rm" "''longitude'' \<in> set (columns rm)" "''latitude'' \<in> set (columns rm)"
      "''capacity'' \<in> set (columns rm)"
    by (simp_all add: power_inputs_def)
  note g = getitem_third[OF nd]
  let ?st0 = "(init_nodes nd (map (\<lambda>row. snd row ! 2) (rows nd)),
     init_r_nodes (map fst (rows rm))
       (map (\<lambda>row. snd row ! column_pos (columns rm) ''longitude'') (rows rm))
       (map (\<lambda>row. snd row ! column_pos (columns rm) ''latitude'') (rows rm))
       (map (\<lambda>row. snd row ! column_pos (columns rm) ''capacity'') (rows rm)))"
  have t: "power_tables nd rm = Inr ?st0"
    using nd(2) rm(2-) by (simp add: power_tables_def g) (simp add: getitem_def)
  have wf: "wf_tables ?st0"
    using nd(1) rm(1)
    by (simp add: wf_tables_def init_nodes_map init_r_nodes_map wf_frame_def comp_def list_all_iff aligned_def)
  have gc: "getitem rm ''capacity'' =
     (Inr (map (\<lambda>row. snd row ! column_pos (columns rm) ''capacity'') (rows rm)) :: 'n error + _)"
    using rm(4) by (simp add: getitem_def)
  have b3: "broadcast 3 (snd row) = snd row" if "row \<in> set (rows nd)" for row
    using that nd(1,2) by (simp add: broadcast_def wf_frame_def list_all_iff)
  have props: "map fst (fst ?st0) = map fst (rows nd)"
     "map (\<lambda>n. r_cap (snd n)) (fst ?st0) = map (\<lambda>row. snd row ! 2) (rows nd)"
     "map (\<lambda>n. capacity (snd n)) (fst ?st0) = map (\<lambda>row. snd row ! 2) (rows nd)"
     "\<forall>n \<in> set (fst ?st0). assignments (snd n) = []"
     "map fst (snd ?st0) = map fst (rows rm)"
     "map (\<lambda>r. res_capacity (snd r)) (snd ?st0) = map (\<lambda>row. snd row ! column_pos (columns rm) ''capacity'') (rows rm)"
     "map (\<lambda>r. res_r_cap (snd r)) (snd ?st0) = map (\<lambda>row. snd row ! column_pos (columns rm) ''capacity'') (rows rm)"
    by (simp_all add: init_nodes_map init_r_nodes_map comp_def assignments_def b3)
  from g gc t wf props show ?thesis by blast
qed

lemma drawn_unassigned: "\<forall>n \<in> set nodes. assignments (snd n) = [] \<Longrightarrow> drawn s nodes = 0"
  by (induction nodes) (simp_all add: drawn_def)

lemma draws_unassigned: "\<forall>n \<in> set nodes. assignments (snd n) = [] \<Longrightarrow> draws s nodes = 0"
  by (induction nodes) (simp_all add: draws_def)

lemma start_inv_once: "\<forall>n \<in> set (fst st). assignments (snd n) = [] \<Longrightarrow> inv_once st"
  by (simp add: inv_once_def)

lemma start_inv_supply:
  assumes "\<forall>n \<in> set (fst st). assignments (snd n) = []"
    "map (\<lambda>r. res_capacity (snd r)) (snd st) = cap" "map (\<lambda>r. res_r_cap (snd r)) (snd st) = cap"
    "map (\<lambda>n. r_cap (snd n)) (fst st) = demand"
    "\<forall>c \<in> set cap. 0 \<le> c \<and> fl c = c" "\<forall>d \<in> set demand. fl d = d"
  shows "inv_supply st"
proof -
  have r: "res_capacity (snd r) = res_r_cap (snd r)" "0 \<le> res_r_cap (snd r)"
       "fl (res_r_cap (snd r)) = res_r_cap (snd r)" if "r \<in> set (snd st)" for r
  proof -
    from assms(2,3) have "map (\<lambda>r. res_r_cap (snd r)) (snd st) = map (\<lambda>r. res_capacity (snd r)) (snd st)" by simp
    with that show "res_capacity (snd r) = res_r_cap (snd r)" by (simp add: map_eq_conv)
    from that assms(3) have "res_r_cap (snd r) \<in> set cap" by force
    with assms(5) show "0 \<le> res_r_cap (snd r)" "fl (res_r_cap (snd r)) = res_r_cap (snd r)" by blast+
  qed
  have n: "fl (r_cap (snd n)) = r_cap (snd n)" if "n \<in> set (fst st)" for n
  proof -
    from that assms(4) have "r_cap (snd n) \<in> set demand" by force
    with assms(6) show ?thesis by simp
  qed
  show ?thesis
    unfolding inv_supply_def drawn_unassigned[OF assms(1)] draws_unassigned[OF assms(1)]
  proof (rule conjI; rule ballI)
    fix x assume "x \<in> set (fst st)"
    from n[OF this] show "fl (r_cap (snd x)) = r_cap (snd x)" .
  next
    fix x assume "x \<in> set (snd st)"
    from r[OF this] show "fl (res_r_cap (snd x)) = res_r_cap (snd x) \<and>
        0 \<le> res_r_cap (snd x) \<and> res_r_cap (snd x) \<le> res_capacity (snd x) \<and>
        res_r_cap (snd x) * (1 + unit_roundoff) + 0 * res_capacity (snd x)
          \<le> res_capacity (snd x) * tolerance 0"
      by (simp add: tolerance_def)
  qed
qed

lemma open_rows_le: "open_rows st \<le> length (fst st) + length (snd st)"
  unfolding open_rows_def nodes_left_of_def r_left_of_def
  by (intro add_mono length_filter_le)

section \<open>The whole run\<close>

lemma power_loop_more:
  "power_loop k query st = Some r \<Longrightarrow> power_loop (k + j) query st = Some r"
proof (induction k arbitrary: st)
  case 0
  then show ?case by simp
next
  case (Suc k)
  then show ?case by (auto split: sum.splits if_splits)
qed

lemma power_loop_passes:
  "power_loop k query st = Some (Inr st') \<Longrightarrow> \<exists>j\<le>k. power_passes j query st = Inr st'"
proof (induction k arbitrary: st)
  case 0
  then show ?case by simp
next
  case (Suc k)
  from Suc.prems obtain st1 where p: "power_pass query st = Inr st1"
    by (auto split: sum.splits)
  show ?case
  proof (cases "nodes_left_of (fst st1) = []")
    case True
    with Suc.prems p have "st' = st1" by simp
    with p have "power_passes (Suc 0) query st = Inr st'" by simp
    then show ?thesis by (intro exI[of _ "Suc 0"]) simp
  next
    case False
    with Suc.prems p have "power_loop k query st1 = Some (Inr st')" by simp
    from Suc.IH[OF this] obtain j where "j \<le> k" "power_passes j query st1 = Inr st'" by blast
    with p have "power_passes (Suc j) query st = Inr st'" by simp
    with \<open>j \<le> k\<close> show ?thesis by (intro exI[of _ "Suc j"]) simp
  qed
qed

lemma power_passes_done:
  "nodes_left_of (fst st) = [] \<Longrightarrow> power_passes k query st = Inr st"
  by (induction k) (simp_all add: power_pass_done)

lemma power_loop_fails:
  assumes "power_passes k query st0 = Inr st" "nodes_left_of (fst st) \<noteq> []"
    "power_pass query st = Inl e" "k < fuel"
  shows "power_loop fuel query st0 = Some (Inl e)"
  using assms
proof (induction k arbitrary: st0 fuel)
  case 0
  then show ?case by (cases fuel) simp_all
next
  case (Suc k)
  from Suc.prems(1) obtain st1 where p: "power_pass query st0 = Inr st1"
    and r: "power_passes k query st1 = Inr st"
    by (auto split: sum.splits)
  from Suc.prems(4) obtain fuel' where f: "fuel = Suc fuel'" "k < fuel'" by (cases fuel) auto
  have "nodes_left_of (fst st1) \<noteq> []"
  proof
    assume "nodes_left_of (fst st1) = []"
    from power_passes_done[OF this, of k query] r have "st = st1" by simp
    with \<open>nodes_left_of (fst st1) = []\<close> Suc.prems(2) show False by simp
  qed
  moreover have "power_loop fuel' query st1 = Some (Inl e)"
    by (rule Suc.IH[OF r Suc.prems(2,3) f(2)])
  ultimately show ?case using p f(1) by simp
qed

lemma power_passes_Inr:
  fixes st :: "('n, 's) nodes \<times> 's r_nodes"
  assumes "wf_tables st" "kdtree_query query" "power_passes k query st = (Inr st' :: 'n error + _)"
  shows "carried st st'"
  using assms
proof (induction k arbitrary: st)
  case 0
  then show ?case by (simp add: carried_refl)
next
  case (Suc k)
  from Suc.prems(3) obtain st1 where p: "power_pass query st = (Inr st1 :: 'n error + _)"
    and r: "power_passes k query st1 = (Inr st' :: 'n error + _)"
    by (auto split: sum.splits)
  have c: "carried st st1" by (rule power_pass_Inr[OF Suc.prems(1,2) p])
  then have "wf_tables st1" by (simp add: carried_def)
  from Suc.IH[OF this Suc.prems(2) r] c show ?case using carried_trans by blast
qed

lemma nearest_power_nodes_Inr:
  fixes nc :: "'n node_collection" and rm :: "'s frame"
  assumes "nearest_power_nodes fuel query nc rm = Some (Inr table)"
  obtains st0 st where "power_tables (node_data_of nc) rm = (Inr st0 :: 'n error + _)"
    "power_loop fuel query st0 = Some (Inr st)"
    "table = map (\<lambda>n. (fst n, site_row.truncate (snd n))) (fst st)"
  using assms by (auto simp: nearest_power_nodes_def split: sum.splits option.splits)

lemma assignments_truncate [simp]: "assignments (site_row.truncate row) = assignments row"
  by (simp add: assignments_def site_row.truncate_def)

lemma drawn_truncate [simp]:
  "drawn s (map (\<lambda>n. (fst n, site_row.truncate (snd n))) nodes) = drawn s nodes"
  by (simp add: drawn_def comp_def)

lemma aligned_site_id:
  "aligned row \<Longrightarrow> site_id row = Some ids \<Longrightarrow> map fst (assignments row) = ids"
  by (auto simp: aligned_def assignments_def split: option.splits)

lemma conserved:
  assumes inv: "inv_supply st" and ss: "same_static st0 st"
    and l: "map fst (snd st0) = labels" and c: "map (\<lambda>r. res_capacity (snd r)) (snd st0) = cap"
    and m: "(s, c) \<in> set (zip labels cap)"
  shows "drawn s (fst st) * c \<le> c * (1 + (real (draws s (fst st)) + 1) / 2 ^ 52)"
proof -
  have "zip labels cap = map (\<lambda>r. (fst r, res_capacity (snd r))) (snd st0)"
    unfolding l[symmetric] c[symmetric] by (simp add: zip_map_map zip_same_conv_map)
  also have "\<dots> = map ((\<lambda>x. (fst x, snd (snd (snd x)))) \<circ> res_static) (snd st0)"
    by (simp add: res_static_def comp_def)
  also have "\<dots> = map ((\<lambda>x. (fst x, snd (snd (snd x)))) \<circ> res_static) (snd st)"
    using ss unfolding same_static_def map_map[symmetric] by simp
  also have "\<dots> = map (\<lambda>r. (fst r, res_capacity (snd r))) (snd st)"
    by (simp add: res_static_def comp_def)
  finally obtain r where r: "r \<in> set (snd st)" "fst r = s" "res_capacity (snd r) = c"
    using m by auto
  with inv have b: "0 \<le> res_r_cap (snd r)" "res_r_cap (snd r) \<le> c"
    "res_r_cap (snd r) * (1 + unit_roundoff) + drawn s (fst st) * c \<le> c * tolerance (draws s (fst st))"
    by (auto simp: inv_supply_def)
  have "0 \<le> res_r_cap (snd r) * (1 + unit_roundoff)"
    using b(1) by (simp add: unit_roundoff_def)
  with b(3) have "drawn s (fst st) * c \<le> c * tolerance (draws s (fst st))" by linarith
  also have "\<dots> \<le> c * (1 + (real (draws s (fst st)) + 1) / 2 ^ 52)"
    using b(1,2) by (intro mult_left_mono tolerance_le) simp
  finally show ?thesis .
qed

lemma draws_truncate [simp]:
  "draws s (map (\<lambda>n. (fst n, site_row.truncate (snd n))) nodes) = draws s nodes"
  by (simp add: draws_def comp_def)

lemma same_static_nodes:
  assumes "same_static st0 st"
  shows "map fst (fst st) = map fst (fst st0)"
    and "map (\<lambda>n. capacity (snd n)) (fst st) = map (\<lambda>n. capacity (snd n)) (fst st0)"
proof -
  from assms have e: "map node_static (fst st) = map node_static (fst st0)" by (simp add: same_static_def)
  have "map fst (fst st) = map (fst \<circ> node_static) (fst st)" by (simp add: node_static_def comp_def)
  also have "\<dots> = map (fst \<circ> node_static) (fst st0)" using e unfolding map_map[symmetric] by simp
  finally show "map fst (fst st) = map fst (fst st0)" by (simp add: node_static_def comp_def)
  have "map (\<lambda>n. capacity (snd n)) (fst st) = map ((\<lambda>x. snd (snd (snd x))) \<circ> node_static) (fst st)"
    by (simp add: node_static_def comp_def)
  also have "\<dots> = map ((\<lambda>x. snd (snd (snd x))) \<circ> node_static) (fst st0)"
    using e unfolding map_map[symmetric] by simp
  finally show "map (\<lambda>n. capacity (snd n)) (fst st) = map (\<lambda>n. capacity (snd n)) (fst st0)"
    by (simp add: node_static_def comp_def)
qed

lemma power_pass_progress:
  fixes st :: "('n, 's) nodes \<times> 's r_nodes"
  assumes "kdtree_query query" "wf_tables st" "nodes_left_of (fst st) \<noteq> []"
    "power_pass query st = (Inr st' :: 'n error + _)"
  shows "open_rows st' < open_rows st"
proof -
  from assms(3,4) power_pass_exhausted[of st query] have "r_left_of (snd st) \<noteq> []" by auto
  from power_pass_ok[OF assms(2,1) this] assms(4)
  have "open_rows st' + length (pass_pairs query st) \<le> open_rows st" by auto
  with length_pass_pairs[OF assms(3), of query] show ?thesis by linarith
qed

lemma power_pass_rows:
  fixes st :: "('n, 's) nodes \<times> 's r_nodes"
  assumes wf: "wf_tables st" and q: "kdtree_query query" and r: "r_left_of (snd st) \<noteq> []"
    and p: "power_pass query st = (Inr st' :: 'n error + _)"
  shows "(\<forall>nl node. loc (fst st) nl = [node] \<longrightarrow> nl \<notin> snd ` set (pass_pairs query st) \<longrightarrow>
            loc (fst st') nl = [node]) \<and>
         (\<forall>rl nl resource node. (rl, nl) \<in> set (pass_pairs query st) \<longrightarrow>
            loc (snd st) rl = [resource] \<longrightarrow> loc (fst st) nl = [node] \<longrightarrow>
            loc (fst st') nl = [then_node rl resource node])"
proof -
  define P where "P = (\<lambda>(done :: ('s \<times> 'n) list) (s :: ('n, 's) nodes \<times> 's r_nodes).
     (\<forall>rl resource. loc (snd st) rl = [resource] \<longrightarrow> rl \<notin> fst ` set done \<longrightarrow>
        loc (snd s) rl = [resource]) \<and>
     (\<forall>nl node. loc (fst st) nl = [node] \<longrightarrow> nl \<notin> snd ` set done \<longrightarrow> loc (fst s) nl = [node]) \<and>
     (\<forall>rl nl resource node. (rl, nl) \<in> set done \<longrightarrow>
        loc (snd st) rl = [resource] \<longrightarrow> loc (fst st) nl = [node] \<longrightarrow>
        loc (fst s) nl = [then_node rl resource node]))"
  have "\<exists>st'. power_pass query st = (Inr st' :: 'n error + _) \<and> wf_tables st' \<and> P (pass_pairs query st) st'"
  proof (rule power_pass_inv[where P = P, OF _ _ wf q r])
    show "P [] st" by (simp add: P_def)
  next
    fix "done" :: "('s \<times> 'n) list" and nodes :: "('n, 's) nodes" and r_nodes :: "'s r_nodes"
      and rl nl resource node
    assume a: "P done (nodes, r_nodes)" "rl \<notin> fst ` set done" "nl \<notin> snd ` set done"
      "loc r_nodes rl = [resource]" "loc nodes nl = [node]"
    let ?s' = "(set_loc nodes nl (then_node rl resource node), set_loc r_nodes rl (then_resource resource node))"
    from a(1) have P1: "\<And>rl resource. loc (snd st) rl = [resource] \<Longrightarrow> rl \<notin> fst ` set done \<Longrightarrow>
        loc r_nodes rl = [resource]"
      and P2: "\<And>nl node. loc (fst st) nl = [node] \<Longrightarrow> nl \<notin> snd ` set done \<Longrightarrow> loc nodes nl = [node]"
      and P3: "\<And>rl nl resource node. (rl, nl) \<in> set done \<Longrightarrow>
        loc (snd st) rl = [resource] \<Longrightarrow> loc (fst st) nl = [node] \<Longrightarrow>
        loc nodes nl = [then_node rl resource node]"
      by (auto simp: P_def)
    have 1: "loc (snd ?s') rl' = [resource']"
      if "loc (snd st) rl' = [resource']" "rl' \<notin> fst ` set (done @ [(rl, nl)])" for rl' resource'
      using that P1[of rl' resource'] by (simp add: loc_set_loc_other)
    have 2: "loc (fst ?s') nl' = [node']"
      if "loc (fst st) nl' = [node']" "nl' \<notin> snd ` set (done @ [(rl, nl)])" for nl' node'
      using that P2[of nl' node'] by (simp add: loc_set_loc_other)
    have 3: "loc (fst ?s') nl' = [then_node rl' resource' node']"
      if m: "(rl', nl') \<in> set (done @ [(rl, nl)])"
        and l: "loc (snd st) rl' = [resource']" "loc (fst st) nl' = [node']" for rl' nl' resource' node'
    proof (cases "(rl', nl') \<in> set done")
      case True
      then have "nl' \<noteq> nl" using a(3) by force
      with P3[OF True l] show ?thesis by (simp add: loc_set_loc_other)
    next
      case False
      with m have e: "rl' = rl" "nl' = nl" by auto
      from P1[OF l(1)[unfolded e] a(2)] a(4) have "resource' = resource" by simp
      moreover from P2[OF l(2)[unfolded e] a(3)] a(5) have "node' = node" by simp
      ultimately show ?thesis using a(5) e by (simp add: loc_set_loc_same)
    qed
    from 1 2 3 show "P (done @ [(rl, nl)]) ?s'" unfolding P_def by blast
  qed
  with p show ?thesis by (auto simp: P_def)
qed

lemma aligned_truncate [simp]: "aligned (site_row.truncate row) = aligned row"
  by (simp add: aligned_def site_row.truncate_def)

section \<open>The example tables\<close>

lemma example_inputs: "power_inputs example_nodes example_resources"
  by (simp add: power_inputs_def wf_frame_def example_nodes_def example_resources_def)

lemma example_run:
  "nearest_power_nodes 3 first_nearest (DataFrame example_nodes) example_resources =
     Some (Inr example_result)"
  by (simp add: nearest_power_nodes_def run_simps example_nodes_def example_resources_def
        example_result_def)

lemma example_run_4:
  "nearest_power_nodes 4 first_nearest (DataFrame example_nodes) example_resources =
     Some (Inr example_result)"
  by (simp add: nearest_power_nodes_def run_simps example_nodes_def example_resources_def
        example_result_def)

lemma example_demand: "getitem example_nodes ''capacity (MW)'' = Inr [8, 4]"
  by (simp add: getitem_def example_nodes_def)

lemma example_capacity: "getitem example_resources ''capacity'' = Inr [10, 5]"
  by (simp add: getitem_def example_resources_def)

lemma short_start:
  "power_tables (node_data_of (DataFrame example_nodes)) short_resources = Inr short_tables"
  by (simp add: run_simps example_nodes_def short_resources_def short_tables_def)

lemma short_passes: "power_passes 2 first_nearest short_tables = Inr short_after"
  by (simp add: run_simps short_tables_def short_after_def)

lemma short_exhausted: "r_left_of (snd short_after) = []" "nodes_left_of (fst short_after) \<noteq> []"
  by (simp_all add: r_left_of_def nodes_left_of_def short_after_def)

lemma conflict_pass: "power_pass first_nearest conflict_tables = Inr conflict_after"
  by (simp add: run_simps conflict_tables_def conflict_after_def)

lemma conflict_wf: "wf_tables conflict_tables"
  by (simp add: wf_tables_def conflict_tables_def aligned_def)

lemma float_examples: "fl 10 = 10" "fl 5 = 5" "fl 8 = 8" "fl 4 = 4"
  by (simp_all add: fl_simps)

section \<open>Conflicts of a pass\<close>

text \<open>
  C3. In every pass, of the nodes left that name the same nearest resource left, one is
  applied to it, a node whose distance to it is least; the others get no assignment in
  this pass and are looked at again in the next. For the node \<open>k\<close> of the nodes left,
  \<open>pos\<close> the resource it names and \<open>n\<close> the row \<open>idxmin\<close> gives for \<open>pos\<close>: \<open>n\<close> is a node
  left that names \<open>pos\<close>, the distance of no node that names \<open>pos\<close> is less than that of
  \<open>n\<close>, and after the pass the row of \<open>k\<close> is the row with the resource \<open>pos\<close> applied to
  it when \<open>k = n\<close> and the row as it was otherwise, in which case \<open>k\<close> is among the nodes
  left of the next pass. The tables are any with unique labels and aligned lists, as all
  tables of a run are.
\<close>

theorem nearest_node_wins:
  fixes st :: "('n, 's) nodes \<times> 's r_nodes"
  assumes "kdtree_query query" and "wf_tables st"
    and "power_pass query st = (Inr st' :: 'n error + _)"
    and "k < length (nodes_left_of (fst st))"
  shows "let nodes_left = nodes_left_of (fst st); r_left = r_left_of (snd st);
             dist_pos = query_all query st; pos = snd (dist_pos ! k);
             n = idxmin (pos_group dist_pos pos)
         in n < length nodes_left \<and> snd (dist_pos ! n) = pos \<and>
            \<not> dist_less (fst (dist_pos ! k)) (fst (dist_pos ! n)) \<and>
            pos < length r_left \<and>
            loc (fst st') (fst (nodes_left ! k)) =
              [if k = n
               then then_node (fst (r_left ! pos)) (snd (r_left ! pos)) (snd (nodes_left ! k))
               else snd (nodes_left ! k)] \<and>
            (k \<noteq> n \<longrightarrow> nodes_left ! k \<in> set (nodes_left_of (fst st')))"
proof -
  let ?nodes_left = "nodes_left_of (fst st)" and ?r_left = "r_left_of (snd st)"
  let ?dp = "query_all query st"
  let ?pos = "snd (?dp ! k)"
  let ?n = "idxmin (pos_group ?dp ?pos)"
  let ?n_i = "fst (?nodes_left ! k)"
  have len: "length ?dp = length ?nodes_left" by (rule length_query_all)
  from assms(4) have ne: "?nodes_left \<noteq> []" by auto
  with assms(3) power_pass_exhausted[of st query] have r: "?r_left \<noteq> []" by auto
  from assms(4) len have pm: "?pos \<in> snd ` set ?dp" by (metis imageI nth_mem)
  note w = idxmin_pos_group[OF pm]
  have pr: "?pos < length ?r_left" by (rule query_all_in_range[OF assms(1) r pm])
  have dn: "distinct (map fst ?nodes_left)" and dr: "distinct (map fst ?r_left)"
    using assms(2) by (auto simp: wf_tables_def r_left_of_def nodes_left_of_def distinct_map_filter)
  have lk: "loc (fst st) ?n_i = [snd (?nodes_left ! k)]"
  proof -
    from assms(4) have "?nodes_left ! k \<in> set ?nodes_left" by simp
    then have "(?n_i, snd (?nodes_left ! k)) \<in> set (fst st)" by (auto simp: nodes_left_of_def)
    then show ?thesis using assms(2) by (simp add: wf_tables_def loc_eq_single_iff)
  qed
  have lr: "loc (snd st) (fst (?r_left ! ?pos)) = [snd (?r_left ! ?pos)]"
  proof -
    from pr have "?r_left ! ?pos \<in> set ?r_left" by simp
    then have "(fst (?r_left ! ?pos), snd (?r_left ! ?pos)) \<in> set (snd st)" by (auto simp: r_left_of_def)
    then show ?thesis using assms(2) by (simp add: wf_tables_def loc_eq_single_iff)
  qed
  note rows = power_pass_rows[OF assms(2,1) r assms(3)]
  have pairs: "set (pass_pairs query st) =
     {(map fst ?r_left ! p, map fst ?nodes_left ! idxmin (pos_group ?dp p)) | p. p \<in> snd ` set ?dp}"
    unfolding pass_pairs_def set_map set_groupby_idxmin by (auto simp: image_iff) force
  have "loc (fst st') ?n_i =
     [if k = ?n then then_node (fst (?r_left ! ?pos)) (snd (?r_left ! ?pos)) (snd (?nodes_left ! k))
      else snd (?nodes_left ! k)]"
  proof (cases "k = ?n")
    case True
    have "(map fst ?r_left ! ?pos, map fst ?nodes_left ! ?n) \<in> set (pass_pairs query st)"
      unfolding pairs using pm by blast
    then have "(fst (?r_left ! ?pos), ?n_i) \<in> set (pass_pairs query st)"
      using True pr assms(4) by simp
    from rows[THEN conjunct2, rule_format, OF this lr lk] True show ?thesis by simp
  next
    case False
    have "?n_i \<notin> snd ` set (pass_pairs query st)"
    proof
      assume "?n_i \<in> snd ` set (pass_pairs query st)"
      then have "\<exists>p. p \<in> snd ` set ?dp \<and>
          map fst ?nodes_left ! idxmin (pos_group ?dp p) = ?n_i"
        unfolding pairs by force
      then obtain p where p: "p \<in> snd ` set ?dp"
        and e: "map fst ?nodes_left ! idxmin (pos_group ?dp p) = ?n_i"
        by blast
      note w' = idxmin_pos_group[OF p]
      have "idxmin (pos_group ?dp p) < length (map fst ?nodes_left)" "k < length (map fst ?nodes_left)"
        using w' assms(4) len by simp_all
      with e dn have "idxmin (pos_group ?dp p) = k"
        using nth_eq_iff_index_eq[of "map fst ?nodes_left" "idxmin (pos_group ?dp p)" k]
        by (simp del: nth_map length_map add: nth_map[OF assms(4), symmetric])
      with w' have "p = ?pos" by simp
      with \<open>idxmin (pos_group ?dp p) = k\<close> False show False by simp
    qed
    from rows[THEN conjunct1, rule_format, OF lk this] False show ?thesis by simp
  qed
  moreover have "?nodes_left ! k \<in> set (nodes_left_of (fst st'))"
    if "loc (fst st') ?n_i = [snd (?nodes_left ! k)]"
  proof -
    from assms(4) have "?nodes_left ! k \<in> set ?nodes_left" by simp
    then have "0 < r_cap (snd (?nodes_left ! k))" by (simp add: nodes_left_of_def)
    moreover from loc_single_mem[OF that] have "?nodes_left ! k \<in> set (fst st')" by simp
    ultimately show ?thesis by (simp add: nodes_left_of_def)
  qed
  ultimately show ?thesis using w pr len assms(4) by (simp add: Let_def)
qed

theorem nearest_node_wins_witness:
  "kdtree_query first_nearest \<and> wf_tables conflict_tables \<and>
   power_pass first_nearest conflict_tables = (Inr conflict_after :: string error + _) \<and>
   0 < length (nodes_left_of (fst conflict_tables)) \<and>
   (let nodes_left = nodes_left_of (fst conflict_tables); r_left = r_left_of (snd conflict_tables);
        dist_pos = query_all first_nearest conflict_tables; pos = snd (dist_pos ! 0);
        n = idxmin (pos_group dist_pos pos)
    in n < length nodes_left \<and> snd (dist_pos ! n) = pos \<and>
       \<not> dist_less (fst (dist_pos ! 0)) (fst (dist_pos ! n)) \<and>
       pos < length r_left \<and>
       loc (fst conflict_after) (fst (nodes_left ! 0)) =
         [if 0 = n
          then then_node (fst (r_left ! pos)) (snd (r_left ! pos)) (snd (nodes_left ! 0))
          else snd (nodes_left ! 0)] \<and>
       (0 \<noteq> n \<longrightarrow> nodes_left ! 0 \<in> set (nodes_left_of (fst conflict_after)))) \<and>
   idxmin (pos_group (query_all first_nearest conflict_tables) 0) = 1"
proof -
  have k: "0 < length (nodes_left_of (fst conflict_tables))"
    by (simp add: nodes_left_of_def conflict_tables_def)
  have w: "idxmin (pos_group (query_all first_nearest conflict_tables) 0) = 1"
    by (simp add: run_simps conflict_tables_def)
  from nearest_node_wins[OF kdtree_query_first_nearest conflict_wf conflict_pass k]
  show ?thesis using kdtree_query_first_nearest conflict_wf conflict_pass k w by blast
qed

section \<open>Sufficient capacity\<close>

text \<open>
  C4. With all demands and all capacities positive and a total capacity of at least the
  total demand, \<open>nearest_power_nodes\<close> is to end with a remaining demand of 0 for every
  node. The code tests the remainders against 0 as they are, and they are rounded. For the
  demands 1.2, 1.2 and 2.4 and one resource of the capacity 4.8, which is their sum, the
  first pass leaves the resource \<open>4.8 - 1.2\<close>, the float 3.5999999999999996, the second
  pass the float 2.3999999999999995, and the third pass takes that for the demand 2.4 and
  leaves the node a demand of \<open>2\<^sup>-\<^sup>5\<^sup>1\<close>. The fourth pass finds a node left and no resource
  left, and \<open>r_index[i]\<close> raises \<open>IndexError\<close>: the call returns no table.
\<close>

theorem demand_not_met:
  "power_inputs residue_nodes residue_resources \<and>
   getitem residue_nodes ''capacity (MW)'' =
     (Inr [fl (6 / 5), fl (6 / 5), fl (12 / 5)] :: string error + real list) \<and>
   getitem residue_resources ''capacity'' = (Inr [fl (24 / 5)] :: string error + real list) \<and>
   list_all (\<lambda>d. 0 < d) [fl (6 / 5), fl (6 / 5), fl (12 / 5)] \<and> 0 < fl (24 / 5) \<and>
   sum_list [fl (6 / 5), fl (6 / 5), fl (12 / 5)] = sum_list [fl (24 / 5)] \<and>
   (\<exists>st0 st.
      power_tables residue_nodes residue_resources = (Inr st0 :: string error + _) \<and>
      power_passes 3 first_nearest st0 = (Inr st :: string error + _) \<and>
      map (\<lambda>n. r_cap (snd n)) (fst st) = [0, 0, 1 / 2 ^ 51] \<and>
      map (\<lambda>r. res_r_cap (snd r)) (snd st) = [0]) \<and>
   nearest_power_nodes 4 first_nearest (DataFrame residue_nodes) residue_resources =
     Some (Inl IndexError)"
  by (simp add: power_inputs_def wf_frame_def nearest_power_nodes_def run_simps
        residue_nodes_def residue_resources_def)

text \<open>
  C6. With positive demands and capacities and a total capacity of at least the total
  demand, the loop is to end within as many passes as there are resources and nodes. The
  loop tests for its end after the pass, so it makes one pass on tables without nodes:
  with no node and no resource that is one pass, not none. And the sum of the capacities
  does not decide how the loop ends: the remainders are rounded. What holds for all tables
  is the bound. The loop ends within the greater of 1 and the number of resources and
  nodes, with the table, or with the \<open>IndexError\<close> of a pass that finds a node left and no
  resource left; and every pass that finds a node left and does not fail leaves fewer rows
  open (nodes with demand left, resources with capacity left) than it found, since each
  assignment sets the remainder of its node or of its resource to 0.
\<close>

theorem passes_bounded:
  fixes node_collection :: "'n node_collection" and resource_meta :: "'s frame"
  assumes "kdtree_query query"
    and "power_inputs (node_data_of node_collection) resource_meta"
  shows "(nearest_power_nodes
            (max 1 (length (rows resource_meta) + length (rows (node_data_of node_collection))))
            query node_collection resource_meta = Some (Inl IndexError) \<or>
          (\<exists>table. nearest_power_nodes
            (max 1 (length (rows resource_meta) + length (rows (node_data_of node_collection))))
            query node_collection resource_meta = Some (Inr table))) \<and>
     (\<forall>st st'. wf_tables st \<longrightarrow> nodes_left_of (fst st) \<noteq> [] \<longrightarrow>
        power_pass query st = (Inr st' :: 'n error + (('n, 's) nodes \<times> 's r_nodes)) \<longrightarrow>
        open_rows st' < open_rows st)"
proof -
  let ?k = "max 1 (length (rows resource_meta) + length (rows (node_data_of node_collection)))"
  from power_tables_start[OF assms(2)] obtain st0 where
    t: "power_tables (node_data_of node_collection) resource_meta = (Inr st0 :: 'n error + _)"
    and wf0: "wf_tables st0"
    and ln: "map fst (fst st0) = map fst (rows (node_data_of node_collection))"
    and lr: "map fst (snd st0) = map fst (rows resource_meta)"
    by auto
  have "length (fst st0) = length (rows (node_data_of node_collection))"
    "length (snd st0) = length (rows resource_meta)"
    using ln lr by (metis length_map)+
  with open_rows_le[of st0] have "open_rows st0 \<le> ?k" "0 < ?k" by simp_all
  from power_loop_ends[OF wf0 assms(1) this]
  have "power_loop ?k query st0 = Some (Inl IndexError :: 'n error + _) \<or>
     (\<exists>st'. power_loop ?k query st0 = Some (Inr st' :: 'n error + _))" .
  then have "nearest_power_nodes ?k query node_collection resource_meta = Some (Inl IndexError) \<or>
     (\<exists>table. nearest_power_nodes ?k query node_collection resource_meta = Some (Inr table))"
    using t by (auto simp: nearest_power_nodes_def)
  then show ?thesis using power_pass_progress[OF assms(1)] by blast
qed

theorem passes_bounded_witness:
  "kdtree_query first_nearest \<and> power_inputs example_nodes example_resources \<and>
   max 1 (length (rows example_resources) + length (rows example_nodes)) = 4 \<and>
   nearest_power_nodes 4 first_nearest (DataFrame example_nodes) example_resources =
     Some (Inr example_result)"
proof -
  have p: "power_inputs (node_data_of (DataFrame example_nodes)) example_resources"
    by (simp add: example_inputs)
  have m: "max 1 (length (rows example_resources) + length (rows (node_data_of (DataFrame example_nodes)))) = 4"
    by (simp add: example_nodes_def example_resources_def)
  from passes_bounded[OF kdtree_query_first_nearest p, THEN conjunct1]
  have "nearest_power_nodes 4 first_nearest (DataFrame example_nodes) example_resources = Some (Inl IndexError) \<or>
     (\<exists>table. nearest_power_nodes 4 first_nearest (DataFrame example_nodes) example_resources = Some (Inr table))"
    unfolding m .
  then show ?thesis using kdtree_query_first_nearest example_inputs m example_run_4 by simp
qed

theorem passes_bounded_counterexample:
  "nearest_power_nodes (length ([] :: (string \<times> real list) list) + length ([] :: (string \<times> real list) list))
     first_nearest
     (DataFrame \<lparr>columns = [''latitude'', ''longitude'', ''capacity (MW)''],
                 rows = ([] :: (string \<times> real list) list)\<rparr>)
     \<lparr>columns = [''latitude'', ''longitude'', ''capacity''], rows = ([] :: (string \<times> real list) list)\<rparr>
     = None \<and>
   nearest_power_nodes 1 first_nearest
     (DataFrame \<lparr>columns = [''latitude'', ''longitude'', ''capacity (MW)''],
                 rows = ([] :: (string \<times> real list) list)\<rparr>)
     \<lparr>columns = [''latitude'', ''longitude'', ''capacity''], rows = ([] :: (string \<times> real list) list)\<rparr>
     = Some (Inr [])"
  by (simp add: nearest_power_nodes_def run_simps)

section \<open>No resource left\<close>

text \<open>
  C1. When no resource has capacity left while a node still has demand left, the call is
  to fail with \<open>CapacityExhaustedError\<close>, naming every node whose demand was not met with
  what is left of it, and to return no table. The code has no such error and no such
  check: with no resource left the k-d tree is empty, \<open>groupby\<close> still makes a pair for
  the nodes left, and \<open>r_index[i]\<close> on the empty index (line 78) raises \<open>IndexError\<close>, which
  names no node. So a call whose tables, after some number of passes, have no resource
  left and a node left fails with \<open>IndexError\<close> in the next pass and returns no table;
  and so does the loop from any such tables. The claim takes this for the case of a total
  capacity less than the total demand. With the rounded remainders it is not: the demands
  1, 1 and \<open>2\<^sup>5\<^sup>3 + 4\<close> are all met from the capacity \<open>2\<^sup>5\<^sup>3 + 4\<close>, which less 1 is the float
  \<open>2\<^sup>5\<^sup>3 + 4\<close> again.
\<close>

theorem capacity_exhausted:
  fixes node_collection :: "'n node_collection" and resource_meta :: "'s frame"
  assumes "power_tables (node_data_of node_collection) resource_meta = (Inr st0 :: 'n error + _)"
    and "power_passes k query st0 = (Inr st :: 'n error + _)"
    and "r_left_of (snd st) = []" and "nodes_left_of (fst st) \<noteq> []"
    and "k < fuel"
  shows "nearest_power_nodes fuel query node_collection resource_meta = Some (Inl IndexError) \<and>
     (\<forall>j st'. r_left_of (snd st') = [] \<longrightarrow> nodes_left_of (fst st') \<noteq> [] \<longrightarrow>
        power_loop (Suc j) query (st' :: ('n, 's) nodes \<times> 's r_nodes) =
          Some (Inl IndexError :: 'n error + _))"
proof -
  have "power_pass query st = (Inl IndexError :: 'n error + _)"
    by (rule power_pass_exhausted[OF assms(3,4)])
  from power_loop_fails[OF assms(2,4) this assms(5)] assms(1)
  have "nearest_power_nodes fuel query node_collection resource_meta = Some (Inl IndexError)"
    by (simp add: nearest_power_nodes_def)
  moreover have "power_loop (Suc j) query st' = Some (Inl IndexError :: 'n error + _)"
    if "r_left_of (snd st') = []" "nodes_left_of (fst st') \<noteq> []"
    for j and st' :: "('n, 's) nodes \<times> 's r_nodes"
    using power_pass_exhausted[OF that, of query] by simp
  ultimately show ?thesis by blast
qed

theorem capacity_exhausted_witness:
  "power_tables (node_data_of (DataFrame example_nodes)) short_resources =
     (Inr short_tables :: string error + _) \<and>
   power_passes 2 first_nearest short_tables = (Inr short_after :: string error + _) \<and>
   r_left_of (snd short_after) = [] \<and> nodes_left_of (fst short_after) \<noteq> [] \<and>
   nearest_power_nodes 3 first_nearest (DataFrame example_nodes) short_resources =
     Some (Inl IndexError)"
proof -
  have "(2 :: nat) < 3" by simp
  from capacity_exhausted[OF short_start short_passes short_exhausted this, THEN conjunct1]
  show ?thesis using short_start short_passes short_exhausted by simp
qed

theorem capacity_exhausted_counterexample:
  "nearest_power_nodes 3 first_nearest (DataFrame example_nodes) short_resources =
     Some (Inl IndexError) \<and>
   nearest_power_nodes 3 first_nearest (DataFrame example_nodes) short_resources \<noteq>
     Some (Inl (CapacityExhaustedError [(''N2'', 2)])) \<and>
   getitem absorbed_nodes ''capacity (MW)'' = (Inr [1, 1, 2 ^ 53 + 4] :: string error + real list) \<and>
   getitem absorbed_resources ''capacity'' = (Inr [2 ^ 53 + 4] :: string error + real list) \<and>
   sum_list [2 ^ 53 + 4 :: real] < sum_list [1, 1, 2 ^ 53 + 4] \<and>
   (\<exists>table. nearest_power_nodes 3 first_nearest (DataFrame absorbed_nodes) absorbed_resources =
      Some (Inr table))"
  by (simp add: nearest_power_nodes_def run_simps example_nodes_def short_resources_def
        absorbed_nodes_def absorbed_resources_def)

section \<open>Every run\<close>

text \<open>
  C5. For every resource, the fractions of it assigned to the nodes, summed over all nodes
  and times its total capacity, are not to exceed its total capacity. The fractions are
  rounded quotients, and their sum can exceed 1: of the capacity 10 the demands 1 and 9
  get the fractions 0.1 and 0.9, floats that are both greater than the tenth and the nine
  tenths. What holds is the bound up to rounding: the sum times the capacity exceeds the
  capacity by no more than \<open>(k + 1) / 2\<^sup>5\<^sup>2\<close> of it, \<open>k\<close> the number of assignments of the
  resource. This holds in the tables after any number of passes and any number of rounds
  of the \<open>for\<close> loop of the next pass, and in the table returned, for tables of floats
  with no negative capacity (a resource of negative capacity is never used, and 0 exceeds
  its capacity).
\<close>

theorem capacity_conserved:
  fixes node_collection :: "'n node_collection" and resource_meta :: "'s frame"
  assumes "kdtree_query query"
    and "power_inputs (node_data_of node_collection) resource_meta"
    and "getitem (node_data_of node_collection) ''capacity (MW)'' = (Inr demand :: 'n error + _)"
    and "getitem resource_meta ''capacity'' = (Inr cap :: 'n error + _)"
    and "\<forall>d \<in> set demand. fl d = d"
    and "\<forall>c \<in> set cap. 0 \<le> c \<and> fl c = c"
  shows "(\<forall>k j st0 st st1.
            power_tables (node_data_of node_collection) resource_meta = (Inr st0 :: 'n error + _) \<longrightarrow>
            power_passes k query st0 = Inr st \<longrightarrow> pass_prefix j query st = Inr st1 \<longrightarrow>
            (\<forall>(s, c) \<in> set (zip (map fst (rows resource_meta)) cap).
               drawn s (fst st1) * c \<le> c * (1 + (real (draws s (fst st1)) + 1) / 2 ^ 52))) \<and>
         (\<forall>fuel table. nearest_power_nodes fuel query node_collection resource_meta = Some (Inr table) \<longrightarrow>
            (\<forall>(s, c) \<in> set (zip (map fst (rows resource_meta)) cap).
               drawn s table * c \<le> c * (1 + (real (draws s table) + 1) / 2 ^ 52)))"
proof -
  from power_tables_start[OF assms(2)] assms(3,4) obtain st0 where
    t: "power_tables (node_data_of node_collection) resource_meta = (Inr st0 :: 'n error + _)"
    and wf0: "wf_tables st0" and un: "\<forall>n \<in> set (fst st0). assignments (snd n) = []"
    and l: "map fst (snd st0) = map fst (rows resource_meta)"
    and d: "map (\<lambda>n. r_cap (snd n)) (fst st0) = demand"
    and c: "map (\<lambda>r. res_capacity (snd r)) (snd st0) = cap"
    and rc: "map (\<lambda>r. res_r_cap (snd r)) (snd st0) = cap"
    by auto
  have inv0: "inv_supply st0" by (rule start_inv_supply[OF un c rc d assms(6,5)])
  have 1: "drawn s (fst st1) * c \<le> c * (1 + (real (draws s (fst st1)) + 1) / 2 ^ 52)"
    if "power_passes k query st0 = (Inr st :: 'n error + _)"
      "pass_prefix j query st = (Inr st1 :: 'n error + _)"
      "(s, c) \<in> set (zip (map fst (rows resource_meta)) cap)"
    for k j st st1 s c
  proof -
    have a: "carried st0 st" by (rule power_passes_Inr[OF wf0 assms(1) that(1)])
    then have "wf_tables st" by (simp add: carried_def)
    then have "carried st st1" using assms(1) that(2) by (rule pass_prefix_Inr)
    with a have "carried st0 st1" by (rule carried_trans)
    with inv0 have "inv_supply st1" "same_static st0 st1" by (simp_all add: carried_def)
    then show ?thesis using l c that(3) by (rule conserved)
  qed
  have 2: "drawn s table * c \<le> c * (1 + (real (draws s table) + 1) / 2 ^ 52)"
    if "nearest_power_nodes fuel query node_collection resource_meta = Some (Inr table)"
      "(s, c) \<in> set (zip (map fst (rows resource_meta)) cap)"
    for fuel table s c
  proof -
    from that(1) t obtain st where lp: "power_loop fuel query st0 = Some (Inr st)"
      and tb: "table = map (\<lambda>n. (fst n, site_row.truncate (snd n))) (fst st)"
      by (auto elim!: nearest_power_nodes_Inr)
    from power_loop_Inr[OF wf0 assms(1) lp] inv0
    have "inv_supply st" "same_static st0 st" by (simp_all add: carried_def)
    then have "drawn s (fst st) * c \<le> c * (1 + (real (draws s (fst st)) + 1) / 2 ^ 52)"
      using l c that(2) by (rule conserved)
    then show ?thesis by (simp add: tb)
  qed
  from 1 2 t show ?thesis by auto
qed

theorem capacity_conserved_witness:
  "kdtree_query first_nearest \<and> power_inputs example_nodes example_resources \<and>
   getitem example_nodes ''capacity (MW)'' = (Inr [8, 4] :: string error + real list) \<and>
   getitem example_resources ''capacity'' = (Inr [10, 5] :: string error + real list) \<and>
   fl 8 = 8 \<and> fl 4 = 4 \<and> fl 10 = 10 \<and> fl 5 = 5 \<and>
   nearest_power_nodes 3 first_nearest (DataFrame example_nodes) example_resources =
     Some (Inr example_result) \<and>
   draws ''R1'' example_result = 2 \<and> draws ''R2'' example_result = 1 \<and>
   drawn ''R1'' example_result * 10 \<le> 10 * (1 + (2 + 1) / 2 ^ 52) \<and>
   drawn ''R2'' example_result * 5 \<le> 5 * (1 + (1 + 1) / 2 ^ 52)"
proof -
  have p: "power_inputs (node_data_of (DataFrame example_nodes)) example_resources"
    by (simp add: example_inputs)
  have d: "getitem (node_data_of (DataFrame example_nodes)) ''capacity (MW)'' = (Inr [8, 4] :: string error + real list)"
    by (simp add: example_demand)
  have h: "\<forall>d \<in> set [8, 4 :: real]. fl d = d" "\<forall>c \<in> set [10, 5 :: real]. 0 \<le> c \<and> fl c = c"
    by (simp_all add: float_examples)
  have z: "zip (map fst (rows example_resources)) [10, 5 :: real] = [(''R1'', 10), (''R2'', 5)]"
    by (simp add: example_resources_def)
  have n: "draws ''R1'' example_result = 2" "draws ''R2'' example_result = 1"
    by (simp_all add: draws_def example_result_def assignments_def)
  from capacity_conserved[OF kdtree_query_first_nearest p d example_capacity h, THEN conjunct2,
      rule_format, OF example_run]
  have b: "x \<in> set [(''R1'', 10), (''R2'', 5)] \<Longrightarrow>
      case x of (s, c) \<Rightarrow> drawn s example_result * c \<le> c * (1 + (real (draws s example_result) + 1) / 2 ^ 52)" for x
    unfolding z .
  have "drawn ''R1'' example_result * 10 \<le> 10 * (1 + (real (draws ''R1'' example_result) + 1) / 2 ^ 52)"
    "drawn ''R2'' example_result * 5 \<le> 5 * (1 + (real (draws ''R2'' example_result) + 1) / 2 ^ 52)"
    using b[of "(''R1'', 10)"] b[of "(''R2'', 5)"] by simp_all
  then have "drawn ''R1'' example_result * 10 \<le> 10 * (1 + (2 + 1) / 2 ^ 52)"
    "drawn ''R2'' example_result * 5 \<le> 5 * (1 + (1 + 1) / 2 ^ 52)"
    unfolding n by simp_all
  then show ?thesis
    using kdtree_query_first_nearest example_inputs example_run example_demand example_capacity n
      float_examples
    by blast
qed

theorem capacity_conserved_counterexample:
  "getitem tenth_nodes ''capacity (MW)'' = (Inr [1, 9] :: string error + real list) \<and>
   getitem tenth_resources ''capacity'' = (Inr [10] :: string error + real list) \<and>
   nearest_power_nodes 2 first_nearest (DataFrame tenth_nodes) tenth_resources =
     Some (Inr tenth_result) \<and>
   drawn ''R1'' tenth_result = fl (1 / 10) + fl (9 / 10) \<and>
   10 < drawn ''R1'' tenth_result * 10"
  by (simp add: nearest_power_nodes_def run_simps tenth_nodes_def tenth_resources_def
        tenth_result_def drawn_def assignments_def)

text \<open>
  C10. In the table that a run returns, the \<open>site_id\<close> list of a node holds no resource
  twice.
\<close>

theorem site_id_distinct:
  fixes node_collection :: "'n node_collection" and resource_meta :: "'s frame"
  assumes "kdtree_query query"
    and "power_inputs (node_data_of node_collection) resource_meta"
    and "nearest_power_nodes fuel query node_collection resource_meta = Some (Inr table)"
    and "(l, row) \<in> set table" and "site_id row = Some ids"
  shows "distinct ids"
proof -
  from assms(3) obtain st0 st where
    t: "power_tables (node_data_of node_collection) resource_meta = (Inr st0 :: 'n error + _)"
    and lp: "power_loop fuel query st0 = Some (Inr st)"
    and tb: "table = map (\<lambda>n. (fst n, site_row.truncate (snd n))) (fst st)"
    by (rule nearest_power_nodes_Inr)
  from power_tables_start[OF assms(2)] t
  have wf0: "wf_tables st0" and un: "\<forall>n \<in> set (fst st0). assignments (snd n) = []"
    by auto
  from power_loop_Inr[OF wf0 assms(1) lp] start_inv_once[OF un]
  have wf: "wf_tables st" and once: "inv_once st" by (simp_all add: carried_def)
  from assms(4) tb obtain n where n: "n \<in> set (fst st)" "row = site_row.truncate (snd n)" by auto
  from wf n(1) have "aligned (snd n)" by (auto simp: wf_tables_def list_all_iff)
  moreover from assms(5) n(2) have "site_id (snd n) = Some ids" by (simp add: site_row.truncate_def)
  ultimately have "map fst (assignments (snd n)) = ids" by (rule aligned_site_id)
  with once n(1) show ?thesis by (auto simp: inv_once_def)
qed

theorem site_id_distinct_witness:
  "kdtree_query first_nearest \<and> power_inputs example_nodes example_resources \<and>
   nearest_power_nodes 3 first_nearest (DataFrame example_nodes) example_resources =
     Some (Inr example_result) \<and>
   (''N2'', \<lparr>latitude = 1, longitude = 0, capacity = 4,
             site_id = Some [''R1'', ''R2''], site_fracs = Some [fl (1 / 5), fl (2 / 5)]\<rparr>) \<in> set example_result \<and>
   distinct [''R1'', ''R2'']"
proof -
  have m: "(''N2'', \<lparr>latitude = 1, longitude = 0, capacity = 4,
             site_id = Some [''R1'', ''R2''], site_fracs = Some [fl (1 / 5), fl (2 / 5)]\<rparr>) \<in> set example_result"
    by (simp add: example_result_def)
  have "distinct [''R1'', ''R2'']"
    by (rule site_id_distinct[OF kdtree_query_first_nearest _ example_run m])
       (simp_all add: example_inputs)
  then show ?thesis using kdtree_query_first_nearest example_inputs example_run m by blast
qed

section \<open>\<open>nearest_met_nodes\<close>\<close>

text \<open>
  C7. For a resource table that is not empty and a node with one nearest resource,
  \<open>nearest_met_nodes\<close> is to give the node the index label of that resource as its
  \<open>site_id\<close>. The code stores what \<open>query\<close> returns, the position of the resource in the
  table: with the resources labelled 10 and 20, a node at the place of the second one gets
  the \<open>site_id\<close> 1, not 20.
\<close>

theorem nearest_met_nodes_position_not_label:
  "nearest_met_nodes first_nearest
     (DataFrame \<lparr>columns = [''latitude'', ''longitude''], rows = [(1 :: nat, [10, 10])]\<rparr>)
     \<lparr>columns = [''latitude'', ''longitude''], rows = [(10 :: nat, [0, 0]), (20, [10, 10])]\<rparr>
   = Inr [(1, \<lparr>met_latitude = 10, met_longitude = 10, met_site_id = 1\<rparr>)]"
  by (simp add: nearest_met_nodes_def run_simps)

text \<open>
  C9. With a resource table of no rows, \<open>nearest_met_nodes\<close> is to fail with
  \<open>EmptyIndexError\<close> rather than return a result. The code has no such check: a k-d tree
  of no points answers every query with the position 0, and the call returns the node
  table with the \<open>site_id\<close> 0 in every row, the position of a resource that is not there.
\<close>

theorem nearest_met_nodes_empty_index:
  "nearest_met_nodes first_nearest
     (DataFrame \<lparr>columns = [''latitude'', ''longitude''], rows = [(1 :: nat, [3, 4])]\<rparr>)
     \<lparr>columns = [''latitude'', ''longitude''], rows = ([] :: (nat \<times> real list) list)\<rparr>
   = Inr [(1, \<lparr>met_latitude = 3, met_longitude = 4, met_site_id = 0\<rparr>)] \<and>
   nearest_met_nodes first_nearest
     (DataFrame \<lparr>columns = [''latitude'', ''longitude''], rows = [(1 :: nat, [3, 4])]\<rparr>)
     \<lparr>columns = [''latitude'', ''longitude''], rows = ([] :: (nat \<times> real list) list)\<rparr>
   \<noteq> Inl EmptyIndexError"
  by (simp add: nearest_met_nodes_def run_simps)

text \<open>
  So it is for every node table of two columns and every k-d tree.
\<close>

theorem nearest_met_nodes_no_resources:
  fixes node_collection :: "'n node_collection" and resource_meta :: "'s frame"
  assumes "kdtree_query query" and "rows resource_meta = []"
    and "wf_frame (node_data_of node_collection)"
    and "length (columns (node_data_of node_collection)) = 2"
  shows "nearest_met_nodes query node_collection resource_meta =
     (Inr (map (\<lambda>row. (fst row, \<lparr>met_latitude = snd row ! 0, met_longitude = snd row ! 1, met_site_id = 0\<rparr>))
            (rows (node_data_of node_collection))) :: 'n error + _)"
proof -
  have q: "\<And>p. query [] p = (Inf_dist, 0)" using assms(1) unfolding kdtree_query_def by blast
  have a: "as_matrix resource_meta = Some []"
    using assms(2) by (simp add: as_matrix_def coordinates_def)
  have b: "broadcast 2 (snd row) = snd row" if "row \<in> set (rows (node_data_of node_collection))" for row
    using that assms(3,4) by (simp add: broadcast_def wf_frame_def list_all_iff)
  have m: "map2 f xs (map g xs) = map (\<lambda>x. f x (g x)) xs" for f :: "'a \<Rightarrow> 'b \<Rightarrow> 'c" and g xs
    by (induction xs) simp_all
  show ?thesis using assms(4)
    by (simp add: nearest_met_nodes_def Let_def a q m b cong: map_cong)
qed

theorem nearest_met_nodes_no_resources_witness:
  "kdtree_query first_nearest \<and>
   nearest_met_nodes first_nearest
     (DataFrame \<lparr>columns = [''latitude'', ''longitude''], rows = [(1 :: nat, [3, 4])]\<rparr>)
     \<lparr>columns = [''latitude'', ''longitude''], rows = ([] :: (nat \<times> real list) list)\<rparr>
   = (Inr [(1, \<lparr>met_latitude = 3, met_longitude = 4, met_site_id = 0\<rparr>)] :: nat error + _)"
proof -
  have "wf_frame (node_data_of (DataFrame \<lparr>columns = [''latitude'', ''longitude''], rows = [(1 :: nat, [3, 4 :: real])]\<rparr>))"
    by (simp add: wf_frame_def)
  from nearest_met_nodes_no_resources [OF kdtree_query_first_nearest _ this,
       of "\<lparr>columns = [''latitude'', ''longitude''], rows = ([] :: (nat \<times> real list) list)\<rparr>"]
  show ?thesis using kdtree_query_first_nearest by simp
qed

text \<open>
  What \<open>nearest_met_nodes\<close> does assign. With a resource table that is not empty, every
  node gets as \<open>site_id\<close> the position, in the resource table, of a resource nearest to
  it.
\<close>

theorem nearest_met_nodes_position:
  fixes node_collection :: "'n node_collection" and resource_meta :: "'s frame"
  assumes "kdtree_query query"
    and "length (columns (node_data_of node_collection)) = 2"
    and "''latitude'' \<in> set (columns resource_meta)"
    and "''longitude'' \<in> set (columns resource_meta)"
    and "rows resource_meta \<noteq> []"
  shows "\<exists>table.
     nearest_met_nodes query node_collection resource_meta = (Inr table :: 'n error + _) \<and>
     map fst table = map fst (rows (node_data_of node_collection)) \<and>
     (\<forall>row \<in> set table.
        met_site_id (snd row) < length (rows resource_meta) \<and>
        (\<forall>j < length (rows resource_meta).
           euclid (met_latitude (snd row), met_longitude (snd row))
             (coordinates resource_meta ! met_site_id (snd row))
           \<le> euclid (met_latitude (snd row), met_longitude (snd row))
             (coordinates resource_meta ! j)))"
proof -
  let ?nd = "node_data_of node_collection"
  let ?pts = "coordinates resource_meta"
  let ?table = "map (\<lambda>row. (fst row,
       \<lparr>met_latitude = broadcast 2 (snd row) ! 0, met_longitude = broadcast 2 (snd row) ! 1,
        met_site_id = snd (query ?pts (broadcast 2 (snd row) ! 0, broadcast 2 (snd row) ! 1))\<rparr>)) (rows ?nd)"
  have len: "length ?pts = length (rows resource_meta)" by (simp add: coordinates_def)
  with assms(5) have ne: "?pts \<noteq> []" by auto
  have z: "as_matrix resource_meta = Some ?pts"
    using assms(3,4) by (simp add: as_matrix_def)
  have m: "map2 f xs (map g xs) = map (\<lambda>x. f x (g x)) xs" for f :: "'a \<Rightarrow> 'b \<Rightarrow> 'c" and g xs
    by (induction xs) simp_all
  have r: "nearest_met_nodes query node_collection resource_meta = (Inr ?table :: 'n error + _)"
    using assms(2)
    by (simp add: nearest_met_nodes_def Let_def z m)
  have "met_site_id (snd row) < length (rows resource_meta) \<and>
        (\<forall>j < length (rows resource_meta).
           euclid (met_latitude (snd row), met_longitude (snd row)) (?pts ! met_site_id (snd row))
           \<le> euclid (met_latitude (snd row), met_longitude (snd row)) (?pts ! j))"
    if "row \<in> set ?table" for row
  proof -
    from that obtain p where row: "met_site_id (snd row) = snd (query ?pts p)"
      "p = (met_latitude (snd row), met_longitude (snd row))" by auto
    from assms(1) ne obtain i where "i < length ?pts" "query ?pts p = (Dist (euclid p (?pts ! i)), i)"
      "\<forall>j<length ?pts. euclid p (?pts ! i) \<le> euclid p (?pts ! j)"
      unfolding kdtree_query_def by blast
    then show ?thesis using row len by simp
  qed
  moreover have "map fst ?table = map fst (rows ?nd)" by (simp add: comp_def)
  ultimately show ?thesis using r by blast
qed

theorem nearest_met_nodes_position_witness:
  "kdtree_query first_nearest \<and>
   nearest_met_nodes first_nearest
     (DataFrame \<lparr>columns = [''latitude'', ''longitude''], rows = [(''N1'', [9, 9])]\<rparr>)
     example_resources =
   (Inr [(''N1'', \<lparr>met_latitude = 9, met_longitude = 9, met_site_id = 1\<rparr>)] :: string error + _) \<and>
   (\<exists>table.
     nearest_met_nodes first_nearest
       (DataFrame \<lparr>columns = [''latitude'', ''longitude''], rows = [(''N1'', [9, 9])]\<rparr>)
       example_resources = (Inr table :: string error + _) \<and>
     map fst table = map fst (rows (node_data_of
       (DataFrame \<lparr>columns = [''latitude'', ''longitude''], rows = [(''N1'', [9, 9])]\<rparr>))) \<and>
     (\<forall>row \<in> set table.
        met_site_id (snd row) < length (rows example_resources) \<and>
        (\<forall>j < length (rows example_resources).
           euclid (met_latitude (snd row), met_longitude (snd row))
             (coordinates example_resources ! met_site_id (snd row))
           \<le> euclid (met_latitude (snd row), met_longitude (snd row))
             (coordinates example_resources ! j))))"
proof -
  have e: "nearest_met_nodes first_nearest
     (DataFrame \<lparr>columns = [''latitude'', ''longitude''], rows = [(''N1'', [9, 9])]\<rparr>)
     example_resources =
   (Inr [(''N1'', \<lparr>met_latitude = 9, met_longitude = 9, met_site_id = 1\<rparr>)] :: string error + _)"
    by (simp add: nearest_met_nodes_def run_simps example_resources_def)
  have h: "length (columns (node_data_of
       (DataFrame \<lparr>columns = [''latitude'', ''longitude''], rows = [(''N1'' :: string, [9, 9])]\<rparr>))) = 2"
    "''latitude'' \<in> set (columns example_resources)" "''longitude'' \<in> set (columns example_resources)"
    "rows example_resources \<noteq> []"
    by (simp_all add: example_resources_def)
  from nearest_met_nodes_position[OF kdtree_query_first_nearest h]
  show ?thesis using kdtree_query_first_nearest e by blast
qed

section \<open>\<open>nearest_power_nodes\<close>: the tables it reads\<close>

text \<open>
  C8. For a request table with the columns \<open>latitude\<close>, \<open>longitude\<close> and \<open>capacity\<close>,
  \<open>nearest_power_nodes\<close> is to start each node's remaining demand at its capacity and to
  return the table of the nodes with their \<open>site_id\<close> and \<open>site_fracs\<close>. Line 42 reads the
  remaining demand from a column labelled \<open>capacity (MW)\<close>: on the table of the
  docstring the call is a \<open>KeyError\<close>, whatever the resources.
\<close>

theorem nearest_power_nodes_capacity_column:
  "nearest_power_nodes fuel query
     (DataFrame \<lparr>columns = [''latitude'', ''longitude'', ''capacity''], rows = [(1 :: nat, [0, 1, 8])]\<rparr>)
     \<lparr>columns = [''latitude'', ''longitude'', ''capacity''], rows = [(10 :: nat, [0, 0, 10])]\<rparr>
   = Some (Inl KeyError)"
  by (simp add: nearest_power_nodes_def power_tables_def getitem_def)

text \<open>
  The table returned. For a request table with its third column labelled
  \<open>capacity (MW)\<close>, the table that \<open>nearest_power_nodes\<close> returns has the index of the
  request table, in its order; its \<open>capacity\<close> column is that third column, which the
  remaining demand starts from; and in every row \<open>site_id\<close> and \<open>site_fracs\<close> are both
  missing or are lists of one length.
\<close>

theorem result_aligned:
  fixes node_collection :: "'n node_collection" and resource_meta :: "'s frame"
  assumes "kdtree_query query"
    and "power_inputs (node_data_of node_collection) resource_meta"
    and "nearest_power_nodes fuel query node_collection resource_meta = Some (Inr table)"
  shows "map fst table = map fst (rows (node_data_of node_collection)) \<and>
     getitem (node_data_of node_collection) ''capacity (MW)'' =
       (Inr (map (\<lambda>row. capacity (snd row)) table) :: 'n error + _) \<and>
     list_all (\<lambda>row. aligned (snd row)) table"
proof -
  from assms(3) obtain st0 st where
    t: "power_tables (node_data_of node_collection) resource_meta = (Inr st0 :: 'n error + _)"
    and lp: "power_loop fuel query st0 = Some (Inr st)"
    and tb: "table = map (\<lambda>n. (fst n, site_row.truncate (snd n))) (fst st)"
    by (rule nearest_power_nodes_Inr)
  from power_tables_start[OF assms(2)] t obtain demand where
    g: "getitem (node_data_of node_collection) ''capacity (MW)'' = (Inr demand :: 'n error + _)"
    and wf0: "wf_tables st0"
    and l: "map fst (fst st0) = map fst (rows (node_data_of node_collection))"
    and c: "map (\<lambda>n. capacity (snd n)) (fst st0) = demand"
    by auto
  from power_loop_Inr[OF wf0 assms(1) lp]
  have wf: "wf_tables st" and ss: "same_static st0 st" by (simp_all add: carried_def)
  have 1: "map fst table = map fst (rows (node_data_of node_collection))"
    using same_static_nodes(1)[OF ss] l by (simp add: tb comp_def)
  have "map (\<lambda>row. capacity (snd row)) table = map (\<lambda>n. capacity (snd n)) (fst st)"
    by (simp add: tb comp_def site_row.truncate_def)
  with same_static_nodes(2)[OF ss] c g
  have 2: "getitem (node_data_of node_collection) ''capacity (MW)'' =
       (Inr (map (\<lambda>row. capacity (snd row)) table) :: 'n error + _)" by simp
  have 3: "list_all (\<lambda>row. aligned (snd row)) table"
    using wf by (simp add: tb wf_tables_def list_all_iff)
  from 1 2 3 show ?thesis by blast
qed

theorem result_aligned_witness:
  "kdtree_query first_nearest \<and> power_inputs example_nodes example_resources \<and>
   nearest_power_nodes 3 first_nearest (DataFrame example_nodes) example_resources =
     Some (Inr example_result) \<and>
   map fst example_result = map fst (rows example_nodes) \<and>
   getitem example_nodes ''capacity (MW)'' =
     (Inr (map (\<lambda>row. capacity (snd row)) example_result) :: string error + _) \<and>
   list_all (\<lambda>row. aligned (snd row)) example_result"
proof -
  have p: "power_inputs (node_data_of (DataFrame example_nodes)) example_resources"
    by (simp add: example_inputs)
  from result_aligned[OF kdtree_query_first_nearest p example_run]
  show ?thesis using kdtree_query_first_nearest example_inputs example_run by simp
qed

end
